theory Spec2Isabelle
  imports Main "HOL-Library.Char_ord" "HOL-Library.List_Lexorder" "HOL-Library.Sublist"
begin

section \<open>JavaScript values handled by the dashboard cards\<close>

text \<open>
  The table card (\<open>TableCard\<close>) and the area chart card (\<open>AreaChartComponent\<close>) receive
  rows and points as plain JSON data. A value is \<open>null\<close>, a boolean, a number, a string, an
  array or an object. Strings are lists of characters, compared character by character; an
  object is the list of its own properties in the order in which JavaScript enumerates
  them. The value \<open>undefined\<close> only arises from reading a property that is not there.

  Numbers are modelled as integers (identifiers, page numbers, UNIX timestamps), printed in
  plain decimal. That is how JavaScript prints the integers it holds exactly, those of
  magnitude up to \<open>2^53 - 1\<close> (\<open>safeInteger\<close> below); larger numbers and fractions are
  printed differently by JavaScript and are outside what the model covers.

  Every object of the data is a plain object: its prototype is \<open>Object.prototype\<close>, and
  reading a property it does not have itself yields what \<open>Object.prototype\<close> provides under
  that name. The one object whose prototype the code can replace is the object map of the
  streaming branch, and it is modelled with its prototype.
\<close>

datatype jv =
    JNull
  | JBool bool
  | JNum int
  | JStr string
  | JArr "jv list"
  | JObj "(string \<times> jv) list"

type_synonym 'v obj = "(string \<times> 'v) list"
type_synonym jobj = "jv obj"

subsection \<open>Number to string\<close>

definition digitChar :: "nat \<Rightarrow> char" where
  "digitChar d = char_of (48 + d)"

definition isDigit :: "char \<Rightarrow> bool" where
  "isDigit c = (48 \<le> (of_char c :: nat) \<and> (of_char c :: nat) \<le> 57)"

definition digitVal :: "char \<Rightarrow> nat" where
  "digitVal c = of_char c - 48"

fun natStr :: "nat \<Rightarrow> string" where
  "natStr n = (if n < 10 then [digitChar n] else natStr (n div 10) @ [digitChar (n mod 10)])"

declare natStr.simps [simp del]

definition natVal :: "string \<Rightarrow> nat" where
  "natVal s = foldl (\<lambda>acc c. 10 * acc + digitVal c) 0 s"

text \<open>\<open>String(n)\<close> for an integer \<open>n\<close>: decimal digits with a leading minus sign.\<close>

definition intStr :: "int \<Rightarrow> string" where
  "intStr i = (if i < 0 then CHR ''-'' # natStr (nat (- i)) else natStr (nat i))"

subsection \<open>Objects: own properties in enumeration order\<close>

text \<open>
  A property name that is an array index (the canonical decimal form of an integer below
  \<open>2^32 - 1\<close>) is enumerated before every other property, in ascending numeric order; the
  remaining names follow in the order in which they were created.
\<close>

definition arrayIndex :: "string \<Rightarrow> nat option" where
  "arrayIndex s =
     (if s \<noteq> [] \<and> list_all isDigit s \<and> (s = ''0'' \<or> hd s \<noteq> CHR ''0'') \<and> natVal s < 4294967295
      then Some (natVal s) else None)"

definition objGet :: "'v obj \<Rightarrow> string \<Rightarrow> 'v option" where
  "objGet ob k = map_of ob k"

definition hasKey :: "'v obj \<Rightarrow> string \<Rightarrow> bool" where
  "hasKey ob k = (k \<in> fst ` set ob)"

definition objReplace :: "'v obj \<Rightarrow> string \<Rightarrow> 'v \<Rightarrow> 'v obj" where
  "objReplace ob k v = map (\<lambda>(k', v'). if k' = k then (k', v) else (k', v')) ob"

fun insertIndex :: "nat \<Rightarrow> string \<Rightarrow> 'v \<Rightarrow> 'v obj \<Rightarrow> 'v obj" where
  "insertIndex n k v [] = [(k, v)]"
| "insertIndex n k v ((k', v') # rest) =
     (case arrayIndex k' of
        Some m \<Rightarrow> if m < n then (k', v') # insertIndex n k v rest else (k, v) # (k', v') # rest
      | None \<Rightarrow> (k, v) # (k', v') # rest)"

definition objInsert :: "'v obj \<Rightarrow> string \<Rightarrow> 'v \<Rightarrow> 'v obj" where
  "objInsert ob k v =
     (case arrayIndex k of Some n \<Rightarrow> insertIndex n k v ob | None \<Rightarrow> ob @ [(k, v)])"

text \<open>\<open>ob[k] = v\<close> on a plain object: an existing property keeps its place.\<close>

definition objSet :: "'v obj \<Rightarrow> string \<Rightarrow> 'v \<Rightarrow> 'v obj" where
  "objSet ob k v = (if hasKey ob k then objReplace ob k v else objInsert ob k v)"

text \<open>\<open>{ ...a, ...b }\<close>: the properties of \<open>b\<close> are assigned, in order, onto a copy of \<open>a\<close>.\<close>

definition spread :: "'v obj \<Rightarrow> 'v obj \<Rightarrow> 'v obj" where
  "spread a b = fold (\<lambda>(k, v) acc. objSet acc k v) b a"

text \<open>\<open>m.set(k, v)\<close> on a \<open>Map\<close>: insertion order, an existing key keeps its place.\<close>

definition mapSet :: "'v obj \<Rightarrow> string \<Rightarrow> 'v \<Rightarrow> 'v obj" where
  "mapSet m k v = (if hasKey m k then objReplace m k v else m @ [(k, v)])"

subsection \<open>\<open>JSON.stringify\<close> and \<open>String\<close>\<close>

definition hexDigit :: "nat \<Rightarrow> char" where
  "hexDigit d = (if d < 10 then char_of (48 + d) else char_of (87 + d))"

text \<open>The escape of one character inside a JSON string literal.\<close>

definition escChar :: "char \<Rightarrow> string" where
  "escChar c =
     (if c = CHR 0x22 then [CHR 0x5C, CHR 0x22]
      else if c = CHR 0x5C then [CHR 0x5C, CHR 0x5C]
      else if c = CHR 0x08 then [CHR 0x5C, CHR ''b'']
      else if c = CHR 0x0C then [CHR 0x5C, CHR ''f'']
      else if c = CHR 0x0A then [CHR 0x5C, CHR ''n'']
      else if c = CHR 0x0D then [CHR 0x5C, CHR ''r'']
      else if c = CHR 0x09 then [CHR 0x5C, CHR ''t'']
      else if (of_char c :: nat) < 32
        then [CHR 0x5C, CHR ''u'', CHR ''0'', CHR ''0'',
              hexDigit (of_char c div 16), hexDigit (of_char c mod 16)]
      else [c])"

definition quote :: "string \<Rightarrow> string" where
  "quote s = CHR 0x22 # concat (map escChar s) @ [CHR 0x22]"

fun stringify :: "jv \<Rightarrow> string"
  and stringifyElems :: "jv list \<Rightarrow> string"
  and stringifyMembers :: "(string \<times> jv) list \<Rightarrow> string" where
  "stringify JNull = ''null''"
| "stringify (JBool b) = (if b then ''true'' else ''false'')"
| "stringify (JNum n) = intStr n"
| "stringify (JStr s) = quote s"
| "stringify (JArr xs) = ''['' @ stringifyElems xs @ '']''"
| "stringify (JObj kvs) = ''{'' @ stringifyMembers kvs @ ''}''"
| "stringifyElems [] = []"
| "stringifyElems [x] = stringify x"
| "stringifyElems (x # y # xs) = stringify x @ '','' @ stringifyElems (y # xs)"
| "stringifyMembers [] = []"
| "stringifyMembers [(k, v)] = quote k @ '':'' @ stringify v"
| "stringifyMembers ((k, v) # kv # kvs) =
     quote k @ '':'' @ stringify v @ '','' @ stringifyMembers (kv # kvs)"

text \<open>
  \<open>String(v)\<close>: a string is itself, an array is its elements joined by commas (with
  \<open>null\<close> elements empty), a plain object is \<open>[object Object]\<close>. That is the conversion
  \<open>Object.prototype.toString\<close> performs; an object with a property \<open>toString\<close> of its own
  hides it, and since that property is data and no function, \<open>String\<close> then throws. The
  model gives the built-in string there too, so \<open>jsString\<close> is \<open>String\<close> on the values that
  \<open>convertible\<close> (below) admits.
\<close>

fun jsString :: "jv \<Rightarrow> string"
  and joinElems :: "jv list \<Rightarrow> string" where
  "jsString JNull = ''null''"
| "jsString (JBool b) = (if b then ''true'' else ''false'')"
| "jsString (JNum n) = intStr n"
| "jsString (JStr s) = s"
| "jsString (JArr xs) = joinElems xs"
| "jsString (JObj kvs) = ''[object Object]''"
| "joinElems [] = []"
| "joinElems [x] = (if x = JNull then [] else jsString x)"
| "joinElems (x # y # xs) = (if x = JNull then [] else jsString x) @ '','' @ joinElems (y # xs)"




subsection \<open>Reading a property\<close>

text \<open>
  The names of the properties of \<open>Object.prototype\<close>. All of them hold built-in functions,
  except \<open>__proto__\<close>, an accessor whose getter returns the prototype of the object it is
  read from and whose setter replaces it.
\<close>

definition objectPrototypeNames :: "string list" where
  "objectPrototypeNames =
     [''constructor'', ''__defineGetter__'', ''__defineSetter__'', ''hasOwnProperty'',
      ''__lookupGetter__'', ''__lookupSetter__'', ''isPrototypeOf'', ''propertyIsEnumerable'',
      ''toString'', ''valueOf'', ''__proto__'', ''toLocaleString'']"

text \<open>
  What reading a property yields: \<open>undefined\<close>, a value of the data, or what
  \<open>Object.prototype\<close> holds under the given name.
\<close>

datatype looked = Undefined | Value jv | Inherited string

text \<open>\<open>ob[k]\<close> on a plain object.\<close>

definition jsGet :: "jobj \<Rightarrow> string \<Rightarrow> looked" where
  "jsGet ob k =
     (case objGet ob k of
        Some v \<Rightarrow> Value v
      | None \<Rightarrow> if k \<in> set objectPrototypeNames then Inherited k else Undefined)"

text \<open>
  \<open>String\<close> of what \<open>Object.prototype\<close> holds. Read from a plain object, \<open>__proto__\<close> is
  \<open>Object.prototype\<close> itself, an object; \<open>constructor\<close> is the function \<open>Object\<close>; every other
  name holds a function of that name. The text of a built-in function is the one V8 gives
  (engines differ in its white space).
\<close>

definition nativeFunction :: "string \<Rightarrow> string" where
  "nativeFunction name = ''function '' @ name @ ''() { [native code] }''"

definition inheritedString :: "string \<Rightarrow> string" where
  "inheritedString k =
     (if k = ''__proto__'' then ''[object Object]''
      else if k = ''constructor'' then nativeFunction ''Object''
      else nativeFunction k)"

text \<open>Whether a value counts as true in \<open>v || {}\<close>.\<close>

fun truthy :: "jv \<Rightarrow> bool" where
  "truthy JNull = False"
| "truthy (JBool b) = b"
| "truthy (JNum n) = (n \<noteq> 0)"
| "truthy (JStr s) = (s \<noteq> [])"
| "truthy (JArr xs) = True"
| "truthy (JObj kvs) = True"

text \<open>
  The properties that \<open>{ ...v }\<close> copies from a value: those of an object, the elements of
  an array and the characters of a string under their indices, none of a number or a
  boolean.
\<close>

definition indexed :: "jv list \<Rightarrow> jobj" where
  "indexed xs = zip (map natStr [0..<length xs]) xs"

fun ownEnumerable :: "jv \<Rightarrow> jobj" where
  "ownEnumerable (JObj kvs) = kvs"
| "ownEnumerable (JArr xs) = indexed xs"
| "ownEnumerable (JStr s) = indexed (map (\<lambda>c. JStr [c]) s)"
| "ownEnumerable JNull = []"
| "ownEnumerable (JBool b) = []"
| "ownEnumerable (JNum n) = []"

text \<open>
  \<open>x || {}\<close> for \<open>x\<close> the result of a read: a built-in function and \<open>Object.prototype\<close>
  count as true.
\<close>

fun orObject :: "looked \<Rightarrow> looked" where
  "orObject Undefined = Value (JObj [])"
| "orObject (Value v) = (if truthy v then Value v else Value (JObj []))"
| "orObject (Inherited k) = Inherited k"

text \<open>
  The properties that \<open>{ ...x }\<close> copies: a built-in function and \<open>Object.prototype\<close> have
  none that a spread copies, and neither has \<open>undefined\<close>.
\<close>

fun spreadProps :: "looked \<Rightarrow> jobj" where
  "spreadProps Undefined = []"
| "spreadProps (Value v) = ownEnumerable v"
| "spreadProps (Inherited k) = []"

subsection \<open>An object map with its prototype\<close>

text \<open>
  The object \<open>merged\<close> of the streaming branch and the object \<open>map\<close> of the persistence
  effect are created as plain objects and then written to under computed keys. Their
  entries are rows. \<open>prototype\<close> is \<open>None\<close> while the prototype is \<open>Object.prototype\<close>, and
  \<open>Some p\<close> once it has been replaced by the row object \<open>p\<close> (itself a plain object).
\<close>

record objectMap =
  entries :: "jobj obj"
  prototype :: "jobj option"

text \<open>
  \<open>m[key]\<close>: the entry of that name; otherwise what the prototype chain has. A replaced
  prototype \<open>p\<close> comes first with its own properties, then \<open>Object.prototype\<close>, whose
  \<open>__proto__\<close> getter returns \<open>p\<close>.
\<close>

definition mapGet :: "objectMap \<Rightarrow> string \<Rightarrow> looked" where
  "mapGet m key =
     (case objGet (entries m) key of
        Some e \<Rightarrow> Value (JObj e)
      | None \<Rightarrow>
          (case prototype m of
             None \<Rightarrow> if key \<in> set objectPrototypeNames then Inherited key else Undefined
           | Some p \<Rightarrow>
               (case objGet p key of
                  Some v \<Rightarrow> Value v
                | None \<Rightarrow>
                    if key = ''__proto__'' then Value (JObj p)
                    else if key \<in> set objectPrototypeNames then Inherited key
                    else Undefined)))"

text \<open>
  \<open>m[key] = e\<close>: an entry of that name is replaced. Otherwise the prototype chain is
  searched: when the name is found as the accessor \<open>__proto__\<close> of \<open>Object.prototype\<close>, its
  setter makes \<open>e\<close> the prototype of \<open>m\<close> and no entry is created; in every other case
  (the name is found as a data property, or not at all) a new entry is created. The name
  \<open>__proto__\<close> reaches the accessor unless the replaced prototype has a property of that
  name itself.
\<close>

definition mapSetProp :: "objectMap \<Rightarrow> string \<Rightarrow> jobj \<Rightarrow> objectMap" where
  "mapSetProp m key e =
     (if hasKey (entries m) key then m\<lparr> entries := objReplace (entries m) key e \<rparr>
      else if key = ''__proto__''
              \<and> (case prototype m of None \<Rightarrow> True | Some p \<Rightarrow> \<not> hasKey p ''__proto__'')
        then m\<lparr> prototype := Some e \<rparr>
      else m\<lparr> entries := objInsert (entries m) key e \<rparr>)"

section \<open>The table card\<close>

subsection \<open>Props, settings and persisted state\<close>

text \<open>
  A record of a table card carries its rows in the optional field \<open>rows\<close>. At run time
  the field can be missing, \<open>null\<close>, some value that is not an array, or an array of row
  objects (\<open>Record<string, any>[]\<close>).
\<close>

datatype rowsField = RowsAbsent | RowsNull | RowsNotArray | RowsArray "jobj list"

record tableRecord =
  rows :: rowsField

record tableSettings =
  indexColumn :: "string option"
  enablePagination :: "bool option"
  pageSize :: "int option"

text \<open>
  The three entries the card keeps in local storage: the accumulated rows (an object map
  or \<open>null\<close>), the current page and the page size (\<open>None\<close> when the entry is not a number).
\<close>

record storage =
  storedRows :: "jobj obj option"
  storedPage :: "int option"
  storedPageSize :: "int option"

text \<open>\<open>Array.isArray(rec.rows) ? rec.rows : []\<close>\<close>

fun rowsOf :: "rowsField \<Rightarrow> jobj list" where
  "rowsOf (RowsArray rs) = rs"
| "rowsOf RowsAbsent = []"
| "rowsOf RowsNull = []"
| "rowsOf RowsNotArray = []"

text \<open>\<open>settings?.indexColumn || "id"\<close>: the empty string is falsy.\<close>

definition indexColumnOf :: "tableSettings \<Rightarrow> string" where
  "indexColumnOf settings =
     (case indexColumn settings of None \<Rightarrow> ''id'' | Some c \<Rightarrow> if c = [] then ''id'' else c)"

text \<open>\<open>x || {}\<close> for a value that is an object or missing.\<close>

definition orEmpty :: "'v obj option \<Rightarrow> 'v obj" where
  "orEmpty x = (case x of None \<Rightarrow> [] | Some ob \<Rightarrow> ob)"

subsection \<open>Key of a row\<close>

text \<open>
  \<open>rawKey = row?.[indexColumn]\<close>; the key is \<open>String(rawKey)\<close> when \<open>rawKey\<close> is neither
  \<open>undefined\<close> nor \<open>null\<close>, and \<open>JSON.stringify(row)\<close> otherwise. The read goes through
  the prototype chain: for an index column named like a property of \<open>Object.prototype\<close>, a
  row without such a property of its own yields the inherited value.
\<close>

definition rowKey :: "string \<Rightarrow> jobj \<Rightarrow> string" where
  "rowKey ix row =
     (case jsGet row ix of
        Undefined \<Rightarrow> stringify (JObj row)
      | Value rawKey \<Rightarrow> if rawKey \<noteq> JNull then jsString rawKey else stringify (JObj row)
      | Inherited name \<Rightarrow> inheritedString name)"

subsection \<open>\<open>mergedRows\<close>\<close>

text \<open>The body of the inner loop of the HTTP branch, on the \<open>Map\<close> built so far.\<close>

definition httpStep :: "string \<Rightarrow> jobj \<Rightarrow> jobj obj \<Rightarrow> jobj obj" where
  "httpStep ix row m =
     (case jsGet row ix of
        Undefined \<Rightarrow>
          (let stableKey = stringify (JObj row); existing = objGet m stableKey
           in mapSet m stableKey (spread (orEmpty existing) row))
      | Value rawKey \<Rightarrow>
          if rawKey \<noteq> JNull then
            (let keyStr = jsString rawKey; existing = objGet m keyStr
             in mapSet m keyStr (spread (orEmpty existing) row))
          else
            (let stableKey = stringify (JObj row); existing = objGet m stableKey
             in mapSet m stableKey (spread (orEmpty existing) row))
      | Inherited name \<Rightarrow>
          (let keyStr = inheritedString name; existing = objGet m keyStr
           in mapSet m keyStr (spread (orEmpty existing) row)))"

definition mergeHttp :: "string \<Rightarrow> tableRecord list \<Rightarrow> jobj obj" where
  "mergeHttp ix records = fold (\<lambda>rec m. fold (httpStep ix) (rowsOf (rows rec)) m) records []"

text \<open>
  The body of the inner loop of the streaming branch, on the object \<open>merged\<close>:
  \<open>existing = merged[key] || {}\<close>, then \<open>merged[key] = { ...(existing || {}), ...row }\<close>.
\<close>

definition streamStep :: "string \<Rightarrow> jobj \<Rightarrow> objectMap \<Rightarrow> objectMap" where
  "streamStep ix row merged =
     (let key = rowKey ix row; existing = orObject (mapGet merged key)
      in mapSetProp merged key (spread (spreadProps (orObject existing)) row))"

text \<open>
  The object \<open>merged\<close> after the two loops, from \<open>{ ...persisted }\<close>: a fresh plain object
  with the entries of the persisted map.
\<close>

definition mergeLoop :: "string \<Rightarrow> jobj obj option \<Rightarrow> tableRecord list \<Rightarrow> objectMap" where
  "mergeLoop ix stored records =
     (let persisted = orEmpty stored; merged = \<lparr> entries = persisted, prototype = None \<rparr>
      in fold (\<lambda>rec m. fold (streamStep ix) (rowsOf (rows rec)) m) records merged)"

text \<open>The entries of \<open>merged\<close>, which are what \<open>Object.values\<close> enumerates.\<close>

definition mergeStreaming :: "string \<Rightarrow> jobj obj option \<Rightarrow> tableRecord list \<Rightarrow> jobj obj" where
  "mergeStreaming ix stored records = entries (mergeLoop ix stored records)"

text \<open>
  \<open>Array.from(map.values())\<close> in the HTTP branch, \<open>Object.values(merged)\<close> in the streaming
  branch.
\<close>

definition mergedRows :: "bool \<Rightarrow> string \<Rightarrow> jobj obj option \<Rightarrow> tableRecord list \<Rightarrow> jobj list" where
  "mergedRows isHttp ix stored records =
     (if isHttp then map snd (mergeHttp ix records)
      else map snd (mergeStreaming ix stored records))"

subsection \<open>The persistence effect\<close>

text \<open>
  The object map rebuilt from the merged rows, keyed as above, by \<open>map[key] = r\<close> on an
  object that starts empty. What is compared and stored are its entries.
\<close>

definition rekey :: "string \<Rightarrow> jobj list \<Rightarrow> jobj obj" where
  "rekey ix rs =
     entries (fold (\<lambda>r m. mapSetProp m (rowKey ix r) r) rs \<lparr> entries = [], prototype = None \<rparr>)"

definition collectionJv :: "jobj obj \<Rightarrow> jv" where
  "collectionJv m = JObj (map (\<lambda>(k, r). (k, JObj r)) m)"

text \<open>
  The effect returns the map to hand to \<open>setStoredRows\<close>, or \<open>None\<close> when it does not
  write: in HTTP mode, and when the serialized forms agree.
\<close>

definition persistEffect :: "bool \<Rightarrow> string \<Rightarrow> jobj list \<Rightarrow> jobj obj option \<Rightarrow> jobj obj option" where
  "persistEffect isHttp ix merged stored =
     (if isHttp then None
      else
        (let m = rekey ix merged;
             prev = orEmpty stored;
             prevJson = stringify (collectionJv prev);
             nextJson = stringify (collectionJv m)
         in if prevJson \<noteq> nextJson then Some m else None))"

text \<open>
  Modelled from the spec: the storage backend behind \<open>useStorageHook\<close>, which is not part
  of the sources. It is a key/value store with get and set: a write replaces the value of
  the entry, and the value read back is the value written. The record holds the value of
  the rows entry and the number of writes the entry has received.
\<close>

record rowsStore =
  rowsValue :: "jobj obj option"
  rowsWrites :: nat

definition setStoredRows :: "jobj obj \<Rightarrow> rowsStore \<Rightarrow> rowsStore" where
  "setStoredRows m s = \<lparr> rowsValue = Some m, rowsWrites = rowsWrites s + 1 \<rparr>"

text \<open>One run of the persistence effect against the backend.\<close>

definition save :: "bool \<Rightarrow> string \<Rightarrow> jobj list \<Rightarrow> rowsStore \<Rightarrow> rowsStore" where
  "save isHttp ix merged s =
     (case persistEffect isHttp ix merged (rowsValue s) of
        None \<Rightarrow> s
      | Some m \<Rightarrow> setStoredRows m s)"

subsection \<open>Pagination\<close>

definition pageOf :: "int option \<Rightarrow> int" where
  "pageOf sp = (case sp of None \<Rightarrow> 1 | Some p \<Rightarrow> if p > 0 then p else 1)"

text \<open>\<open>settings?.pageSize || 10\<close>\<close>

definition settingsPageSize :: "tableSettings \<Rightarrow> int" where
  "settingsPageSize settings =
     (case pageSize settings of None \<Rightarrow> 10 | Some n \<Rightarrow> if n = 0 then 10 else n)"

definition pageSizeOf :: "int option \<Rightarrow> tableSettings \<Rightarrow> int" where
  "pageSizeOf sps settings =
     (case sps of
        None \<Rightarrow> settingsPageSize settings
      | Some n \<Rightarrow> if n > 0 then n else settingsPageSize settings)"

text \<open>\<open>Math.ceil(a / b)\<close> on integers, \<open>b\<close> not zero.\<close>

definition ceilDiv :: "int \<Rightarrow> int \<Rightarrow> int" where
  "ceilDiv a b = - ((- a) div b)"

definition totalPages :: "int \<Rightarrow> int \<Rightarrow> int" where
  "totalPages count ps = max 1 (ceilDiv count ps)"

text \<open>The clamp effect returns the page to hand to \<open>setPage\<close>, if any.\<close>

definition clampEffect :: "int \<Rightarrow> int \<Rightarrow> int \<Rightarrow> int option" where
  "clampEffect count page ps =
     (if page > totalPages count ps then Some (totalPages count ps) else None)"

text \<open>\<open>xs.slice(start, end)\<close>: a negative bound counts from the end of the array.\<close>

definition jsSlice :: "'a list \<Rightarrow> int \<Rightarrow> int \<Rightarrow> 'a list" where
  "jsSlice xs start end =
     (let len = int (length xs);
          k = (if start < 0 then max (len + start) 0 else min start len);
          final = (if end < 0 then max (len + end) 0 else min end len)
      in take (nat (final - k)) (drop (nat k) xs))"

definition visibleRows :: "tableSettings \<Rightarrow> jobj list \<Rightarrow> int \<Rightarrow> int \<Rightarrow> jobj list" where
  "visibleRows settings merged page ps =
     (let start = (page - 1) * ps; end = start + ps
      in if enablePagination settings = Some False then merged else jsSlice merged start end)"

subsection \<open>Final deduplication of the visible rows\<close>

fun dedupeLoop :: "string \<Rightarrow> string set \<Rightarrow> jobj list \<Rightarrow> jobj list \<Rightarrow> jobj list" where
  "dedupeLoop ix seen out [] = out"
| "dedupeLoop ix seen out (r # rs) =
     (let key = rowKey ix r
      in if key \<notin> seen then dedupeLoop ix (insert key seen) (out @ [r]) rs
         else dedupeLoop ix seen out rs)"

definition dedupedVisibleRows :: "string \<Rightarrow> jobj list \<Rightarrow> jobj list" where
  "dedupedVisibleRows ix visible = dedupeLoop ix {} [] visible"

subsection \<open>One render of the card\<close>

text \<open>
  A render computes \<open>mergedRows\<close>, registers the persistence effect, and returns the
  \<open>No table data\<close> placeholder when there are no rows. Only past that return does it read
  the page, register the clamp effect and build the rows handed to the table body. The
  effects run after the render; each is a write to local storage. The effect that clears the
  stored rows runs when the report, the card or the mode changes, not on a render of the
  same card with new records, which is what is modelled here.
\<close>

datatype effect = SetStoredRows "jobj obj" | SetPage int

datatype rendered = NoTableData | TableBody "jobj list"

definition effectList :: "'a option \<Rightarrow> ('a \<Rightarrow> effect) \<Rightarrow> effect list" where
  "effectList x mk = (case x of None \<Rightarrow> [] | Some v \<Rightarrow> [mk v])"

definition TableCard ::
  "bool \<Rightarrow> tableSettings \<Rightarrow> tableRecord list \<Rightarrow> storage \<Rightarrow> rendered \<times> effect list" where
  "TableCard isHttp settings records st =
     (let ix = indexColumnOf settings;
          merged = mergedRows isHttp ix (storedRows st) records;
          persist = effectList (persistEffect isHttp ix merged (storedRows st)) SetStoredRows
      in if length merged = 0 then (NoTableData, persist)
         else
           (let page = pageOf (storedPage st);
                ps = pageSizeOf (storedPageSize st) settings;
                clamp = effectList (clampEffect (int (length merged)) page ps) SetPage;
                visible = visibleRows settings merged page ps
            in (TableBody (dedupedVisibleRows ix visible), persist @ clamp)))"

text \<open>
  Modelled from the spec: the setters returned by \<open>useStorageHook\<close> replace the value of
  their entry.
\<close>

fun runEffect :: "effect \<Rightarrow> storage \<Rightarrow> storage" where
  "runEffect (SetStoredRows m) st = st\<lparr> storedRows := Some m \<rparr>"
| "runEffect (SetPage p) st = st\<lparr> storedPage := Some p \<rparr>"

definition commit :: "effect list \<Rightarrow> storage \<Rightarrow> storage" where
  "commit fx st = fold runEffect fx st"

text \<open>The storage after one render and its effects.\<close>

definition renderCommit :: "bool \<Rightarrow> tableSettings \<Rightarrow> tableRecord list \<Rightarrow> storage \<Rightarrow> storage" where
  "renderCommit isHttp settings records st = commit (snd (TableCard isHttp settings records st)) st"

section \<open>The area chart card\<close>

text \<open>
  A point of a series is an object with a \<open>time\<close> property (a number, a string or a
  business-day object) and, for data points, a \<open>value\<close>.
\<close>

text \<open>\<open>typeof v === "object"\<close>\<close>

fun isObjectType :: "jv \<Rightarrow> bool" where
  "isObjectType JNull = True"
| "isObjectType (JArr xs) = True"
| "isObjectType (JObj kvs) = True"
| "isObjectType (JBool b) = False"
| "isObjectType (JNum n) = False"
| "isObjectType (JStr s) = False"

text \<open>
  \<open>typeof t === "object" ? JSON.stringify(t) : String(t)\<close>, with \<open>String(undefined)\<close> for a
  property that is not there.
\<close>

definition timeString :: "jv option \<Rightarrow> string" where
  "timeString t =
     (case t of
        None \<Rightarrow> ''undefined''
      | Some v \<Rightarrow> if isObjectType v then stringify v else jsString v)"

definition timeKey :: "jobj \<Rightarrow> string" where
  "timeKey pt = timeString (objGet pt ''time'')"

text \<open>
  The \<open>Map\<close> keyed by time. Serializing plain data does not throw, so the \<open>catch\<close> branch of
  the loop (which stores the point under \<open>String(pt.time)\<close>) is never taken.
\<close>

definition keyedByTime :: "jobj list \<Rightarrow> jobj obj" where
  "keyedByTime merged = fold (\<lambda>pt keyed. mapSet keyed (timeKey pt) pt) merged []"

text \<open>The comparison function handed to \<open>sort\<close>.\<close>

definition compareTime :: "jobj \<Rightarrow> jobj \<Rightarrow> int" where
  "compareTime a b =
     (let ta = objGet a ''time''; tb = objGet b ''time''
      in case (ta, tb) of
           (Some (JNum x), Some (JNum y)) \<Rightarrow> x - y
         | _ \<Rightarrow>
           (let sa = timeString ta; sb = timeString tb
            in if sa < sb then - 1 else if sa > sb then 1 else 0))"

text \<open>
  \<open>Array.prototype.sort\<close> with a comparison function is a stable sort: an element moves
  before another only when the comparison puts it strictly first. For a comparison
  function that is not a consistent ordering the language leaves the resulting order to
  the engine; the model inserts each element, from the last to the first, before the first
  element it does not exceed.
\<close>

fun insertBy :: "('a \<Rightarrow> 'a \<Rightarrow> int) \<Rightarrow> 'a \<Rightarrow> 'a list \<Rightarrow> 'a list" where
  "insertBy cmp x [] = [x]"
| "insertBy cmp x (y # ys) = (if cmp x y \<le> 0 then x # y # ys else y # insertBy cmp x ys)"

definition sortBy :: "('a \<Rightarrow> 'a \<Rightarrow> int) \<Rightarrow> 'a list \<Rightarrow> 'a list" where
  "sortBy cmp xs = foldr (insertBy cmp) xs []"

text \<open>The data handed to \<open>setData\<close> for one series, from the points gathered for it.\<close>

definition seriesData :: "jobj list \<Rightarrow> jobj list" where
  "seriesData merged =
     (if length merged > 0 then sortBy compareTime (map snd (keyedByTime merged)) else [])"

section \<open>Notions used to state the properties\<close>

text \<open>A record whose \<open>rows\<close> field is an array.\<close>

definition wellFormedRows :: "tableRecord \<Rightarrow> bool" where
  "wellFormedRows rec = (case rows rec of RowsArray rs \<Rightarrow> True | _ \<Rightarrow> False)"

text \<open>All rows of a sequence of records, in arrival order.\<close>

definition allRows :: "tableRecord list \<Rightarrow> jobj list" where
  "allRows records = concat (map (\<lambda>rec. rowsOf (rows rec)) records)"

text \<open>The rows of a sequence of records that carry a given key, in arrival order.\<close>

definition rowsWithKey :: "string \<Rightarrow> string \<Rightarrow> tableRecord list \<Rightarrow> jobj list" where
  "rowsWithKey ix k records = filter (\<lambda>r. rowKey ix r = k) (allRows records)"

text \<open>Shallow-merging a sequence of rows, in order, onto an entry.\<close>

definition overlay :: "'v obj \<Rightarrow> 'v obj list \<Rightarrow> 'v obj" where
  "overlay e rs = fold (\<lambda>r acc. spread acc r) rs e"

text \<open>
  The HTTP loop, the spread and, as long as the prototype of the object map is untouched,
  the streaming loop are runs of one operation: look the key of an item up, compute the new
  entry from what is there, and store it under that key.
\<close>

definition upsert ::
  "('v obj \<Rightarrow> string \<Rightarrow> 'v \<Rightarrow> 'v obj) \<Rightarrow> ('x \<Rightarrow> string) \<Rightarrow> ('v option \<Rightarrow> 'x \<Rightarrow> 'v)
     \<Rightarrow> 'x \<Rightarrow> 'v obj \<Rightarrow> 'v obj" where
  "upsert setter key f x m = setter m (key x) (f (objGet m (key x)) x)"

text \<open>What such a run does to the entry under one key.\<close>

definition upd ::
  "('x \<Rightarrow> string) \<Rightarrow> ('v option \<Rightarrow> 'x \<Rightarrow> 'v) \<Rightarrow> string \<Rightarrow> 'x list \<Rightarrow> 'v option \<Rightarrow> 'v option" where
  "upd key f k xs v = fold (\<lambda>x acc. if key x = k then Some (f acc x) else acc) xs v"





text \<open>The serialized form of an object map of rows, as the persistence effect compares it.\<close>

definition serialized :: "jobj obj \<Rightarrow> string" where
  "serialized m = stringify (collectionJv m)"

text \<open>The time of a point when it is a number.\<close>

definition timeNum :: "jobj \<Rightarrow> int option" where
  "timeNum pt = (case objGet pt ''time'' of Some (JNum n) \<Rightarrow> Some n | _ \<Rightarrow> None)"

definition allNumeric :: "jobj list \<Rightarrow> bool" where
  "allNumeric pts = list_all (\<lambda>p. timeNum p \<noteq> None) pts"

definition noneNumeric :: "jobj list \<Rightarrow> bool" where
  "noneNumeric pts = list_all (\<lambda>p. timeNum p = None) pts"

text \<open>
  A list of points is in ascending order of time when the comparison function puts no
  point strictly after a later one.
\<close>

definition ascendingByTime :: "jobj list \<Rightarrow> bool" where
  "ascendingByTime pts = sorted_wrt (\<lambda>a b. compareTime a b \<le> 0) pts"

text \<open>
  The slice of a list at the indices from \<open>(page - 1) * pageSize\<close> up to, and not including,
  \<open>page * pageSize\<close>.
\<close>

definition pageSlice :: "'a list \<Rightarrow> int \<Rightarrow> int \<Rightarrow> 'a list" where
  "pageSlice xs page ps =
     map (\<lambda>i. xs ! i)
       (filter (\<lambda>i. (page - 1) * ps \<le> int i \<and> int i < page * ps) [0..<length xs])"

section \<open>Objects and maps\<close>

lemma hasKey_objGet: "hasKey ob k \<longleftrightarrow> objGet ob k \<noteq> None"
  unfolding hasKey_def objGet_def by (metis map_of_eq_None_iff)

lemma objReplace_Nil: "objReplace [] k v = []"
  by (simp add: objReplace_def)

lemma objReplace_Cons:
  "objReplace ((k', v') # ob) k v = (if k' = k then (k', v) else (k', v')) # objReplace ob k v"
  by (simp add: objReplace_def)

lemma hasKey_Nil: "\<not> hasKey [] k"
  by (simp add: hasKey_def)

lemma hasKey_Cons: "hasKey ((k', v') # ob) k \<longleftrightarrow> k = k' \<or> hasKey ob k"
  by (auto simp: hasKey_def)

lemma objGet_Nil: "objGet [] k = None"
  by (simp add: objGet_def)

lemma objGet_Cons: "objGet ((k', v') # ob) k = (if k = k' then Some v' else objGet ob k)"
  by (simp add: objGet_def)

lemma objGet_objReplace:
  "objGet (objReplace ob k v) k' = (if k' = k \<and> hasKey ob k then Some v else objGet ob k')"
proof (induction ob)
  case Nil
  show ?case by (simp add: objReplace_Nil objGet_Nil hasKey_Nil)
next
  case (Cons p ob)
  obtain a b where p: "p = (a, b)" by (cases p)
  show ?case unfolding p using Cons by (auto simp add: objReplace_Cons objGet_Cons hasKey_Cons)
qed

lemma keys_objReplace: "map fst (objReplace ob k v) = map fst ob"
proof (induction ob)
  case Nil
  show ?case by (simp add: objReplace_Nil)
next
  case (Cons p ob)
  obtain a b where p: "p = (a, b)" by (cases p)
  show ?case unfolding p by (simp add: objReplace_Cons Cons)
qed

lemma set_insertIndex: "set (insertIndex n k v ob) = insert (k, v) (set ob)"
  by (induction ob) (auto split: option.splits if_splits)

lemma objGet_insertIndex:
  "\<not> hasKey ob k \<Longrightarrow> objGet (insertIndex n k v ob) k' = (if k' = k then Some v else objGet ob k')"
  by (induction ob) (auto simp: objGet_def hasKey_def split: option.splits)

lemma objGet_append1:
  "\<not> hasKey ob k \<Longrightarrow> objGet (ob @ [(k, v)]) k' = (if k' = k then Some v else objGet ob k')"
  by (auto simp: hasKey_objGet objGet_def map_add_def split: option.splits)

lemma objGet_objSet: "objGet (objSet ob k v) k' = (if k' = k then Some v else objGet ob k')"
  by (auto simp: objSet_def objInsert_def objGet_objReplace objGet_insertIndex objGet_append1
      split: option.splits)

lemma objGet_mapSet: "objGet (mapSet ob k v) k' = (if k' = k then Some v else objGet ob k')"
  by (auto simp: mapSet_def objGet_objReplace objGet_append1)

lemma set_objReplace:
  "(k', v') \<in> set (objReplace ob k v) \<Longrightarrow> (k' = k \<and> v' = v) \<or> (k' \<noteq> k \<and> (k', v') \<in> set ob)"
  by (auto simp: objReplace_def split: if_splits)

lemma set_objSet:
  "(k', v') \<in> set (objSet ob k v) \<Longrightarrow> (k' = k \<and> v' = v) \<or> (k' \<noteq> k \<and> (k', v') \<in> set ob)"
proof (cases "hasKey ob k")
  case True
  assume "(k', v') \<in> set (objSet ob k v)"
  with True show ?thesis by (auto simp: objSet_def dest: set_objReplace)
next
  case False
  assume "(k', v') \<in> set (objSet ob k v)"
  with False have "(k', v') = (k, v) \<or> (k', v') \<in> set ob"
    by (auto simp: objSet_def objInsert_def set_insertIndex split: option.splits)
  moreover from False have "\<And>w. (k, w) \<notin> set ob" by (force simp: hasKey_def)
  ultimately show ?thesis by auto
qed

lemma set_objSet_other:
  "k' \<noteq> k \<Longrightarrow> (k', v') \<in> set ob \<Longrightarrow> (k', v') \<in> set (objSet ob k v)"
  by (force simp: objSet_def objInsert_def set_insertIndex objReplace_def split: option.splits)

lemma hasKey_objSet: "hasKey (objSet ob k v) k' \<longleftrightarrow> k' = k \<or> hasKey ob k'"
  by (simp add: hasKey_objGet objGet_objSet)

lemma hasKey_mapSet: "hasKey (mapSet ob k v) k' \<longleftrightarrow> k' = k \<or> hasKey ob k'"
  by (simp add: hasKey_objGet objGet_mapSet)

text \<open>Lookup after a run of upserts\<close>

lemma objGet_fold_upsert:
  assumes "\<And>m k v k'. objGet (setter m k v) k' = (if k' = k then Some v else objGet m k')"
  shows "objGet (fold (upsert setter key f) xs m) k = upd key f k xs (objGet m k)"
proof (induction xs arbitrary: m)
  case Nil
  show ?case by (simp add: upd_def)
next
  case (Cons x xs)
  have "objGet (upsert setter key f x m) k = (if key x = k then Some (f (objGet m k) x) else objGet m k)"
    by (auto simp: upsert_def assms)
  with Cons show ?case by (simp add: upd_def)
qed

lemma upd_None_iff: "upd key f k xs v = None \<longleftrightarrow> v = None \<and> k \<notin> key ` set xs"
  by (induction xs arbitrary: v) (auto simp: upd_def)

lemma upd_notin: "k \<notin> key ` set xs \<Longrightarrow> upd key f k xs v = v"
  by (induction xs arbitrary: v) (auto simp: upd_def)

lemma upd_Cons: "upd key f k (x # xs) v = upd key f k xs (if key x = k then Some (f v x) else v)"
  by (simp add: upd_def)

lemma hasKey_fold_upsert:
  assumes "\<And>m k v k'. objGet (setter m k v) k' = (if k' = k then Some v else objGet m k')"
  shows "hasKey (fold (upsert setter key f) xs m) k \<longleftrightarrow> hasKey m k \<or> k \<in> key ` set xs"
  by (simp add: hasKey_objGet objGet_fold_upsert [of setter, OF assms] upd_None_iff)

text \<open>Every entry under an upserted key carries the value that a lookup finds\<close>

lemma uniform_fold_upsert:
  "k \<in> key ` set xs \<Longrightarrow> (k, e) \<in> set (fold (upsert objSet key f) xs m) \<Longrightarrow>
     objGet (fold (upsert objSet key f) xs m) k = Some e"
proof (induction xs arbitrary: e rule: rev_induct)
  case Nil
  then show ?case by simp
next
  case (snoc x xs)
  let ?M = "fold (upsert objSet key f) xs m"
  have step: "fold (upsert objSet key f) (xs @ [x]) m = objSet ?M (key x) (f (objGet ?M (key x)) x)"
    by (simp add: upsert_def)
  show ?case
  proof (cases "key x = k")
    case True
    from snoc.prems(2) have "e = f (objGet ?M (key x)) x"
      unfolding step using True by (auto dest: set_objSet)
    then show ?thesis unfolding step using True by (simp add: objGet_objSet)
  next
    case False
    with snoc.prems(1) have kin: "k \<in> key ` set xs" by auto
    from snoc.prems(2) have "(k, e) \<in> set ?M"
      unfolding step using False by (auto dest: set_objSet)
    with snoc.IH kin have "objGet ?M k = Some e" by blast
    then show ?thesis unfolding step using False by (simp add: objGet_objSet)
  qed
qed

text \<open>When every key is already there, a run of upserts rewrites values in place\<close>

lemma fold_upsert_present:
  "key ` set xs \<subseteq> fst ` set m \<Longrightarrow>
   fold (upsert objSet key f) xs m =
     map (\<lambda>(k, e). if k \<in> key ` set xs then (k, the (upd key f k xs (objGet m k))) else (k, e)) m"
proof (induction xs arbitrary: m)
  case Nil
  then show ?case by simp
next
  case (Cons x xs)
  let ?v = "f (objGet m (key x)) x"
  let ?m' = "objReplace m (key x) ?v"
  from Cons.prems have hk: "hasKey m (key x)" by (simp add: hasKey_def)
  then have m': "upsert objSet key f x m = ?m'" by (simp add: upsert_def objSet_def)
  have keys': "fst ` set ?m' = fst ` set m"
    using keys_objReplace [of m "key x" ?v] by (metis set_map)
  with Cons.prems have sub: "key ` set xs \<subseteq> fst ` set ?m'" by simp
  have get': "\<And>k. objGet ?m' k = (if k = key x then Some ?v else objGet m k)"
    using hk by (simp add: objGet_objReplace)
  have "fold (upsert objSet key f) (x # xs) m = fold (upsert objSet key f) xs ?m'"
    by (simp add: m')
  also have "\<dots> = map (\<lambda>(k, e). if k \<in> key ` set xs then (k, the (upd key f k xs (objGet ?m' k))) else (k, e)) ?m'"
    by (rule Cons.IH [OF sub])
  also have "\<dots> = map (\<lambda>(k, e). if k \<in> key ` set (x # xs) then (k, the (upd key f k (x # xs) (objGet m k))) else (k, e)) m"
  proof -
    have rep: "?m' = map (\<lambda>(k', v'). if k' = key x then (k', ?v) else (k', v')) m"
      by (simp add: objReplace_def)
    show ?thesis
      apply (subst (2) rep)
      apply (simp only: map_map)
      apply (rule map_cong [OF refl])
      apply (auto simp: get' upd_Cons upd_notin)
      done
  qed
  finally show ?case .
qed

lemma fold_upsert_idem:
  assumes cond: "\<And>k v. k \<in> key ` set xs \<Longrightarrow> upd key f k xs (upd key f k xs v) = upd key f k xs v"
  shows "fold (upsert objSet key f) xs (fold (upsert objSet key f) xs m) = fold (upsert objSet key f) xs m"
proof -
  let ?M = "fold (upsert objSet key f) xs m"
  have B: "\<And>k. objGet ?M k = upd key f k xs (objGet m k)"
    by (rule objGet_fold_upsert) (rule objGet_objSet)
  have sub: "key ` set xs \<subseteq> fst ` set ?M"
    using hasKey_fold_upsert [of objSet key f xs m, OF objGet_objSet] by (auto simp: hasKey_def)
  have "fold (upsert objSet key f) xs ?M =
     map (\<lambda>(k, e). if k \<in> key ` set xs then (k, the (upd key f k xs (objGet ?M k))) else (k, e)) ?M"
    by (rule fold_upsert_present [OF sub])
  also have "\<dots> = ?M"
  proof (rule map_idI)
    fix p assume p: "p \<in> set ?M"
    obtain k e where pe: "p = (k, e)" by (cases p)
    show "(case p of (k, e) \<Rightarrow> if k \<in> key ` set xs then (k, the (upd key f k xs (objGet ?M k))) else (k, e)) = p"
    proof (cases "k \<in> key ` set xs")
      case True
      from p pe have "(k, e) \<in> set ?M" by simp
      from uniform_fold_upsert [OF True this] have g: "objGet ?M k = Some e" .
      have "upd key f k xs (objGet ?M k) = objGet ?M k"
        unfolding B by (rule cond [OF True])
      with g show ?thesis using True pe by simp
    next
      case False
      then show ?thesis using pe by simp
    qed
  qed
  finally show ?thesis .
qed

section \<open>Serialization is injective\<close>






























section \<open>Keys of rows\<close>








section \<open>Records and their rows\<close>

lemma fold_records_allRows:
  "fold (\<lambda>rec m. fold f (rowsOf (rows rec)) m) records m = fold f (allRows records) m"
  by (induction records arbitrary: m) (simp_all add: allRows_def)

lemma mergeHttp_allRows: "mergeHttp ix records = fold (httpStep ix) (allRows records) []"
  by (simp add: mergeHttp_def fold_records_allRows)

lemma mergeLoop_allRows:
  "mergeLoop ix stored records =
     fold (streamStep ix) (allRows records) \<lparr> entries = orEmpty stored, prototype = None \<rparr>"
  by (simp add: mergeLoop_def fold_records_allRows)

lemma mergeStreaming_allRows:
  "mergeStreaming ix stored records =
     entries (fold (streamStep ix) (allRows records) \<lparr> entries = orEmpty stored, prototype = None \<rparr>)"
  by (simp add: mergeStreaming_def mergeLoop_allRows)

lemma rowsOf_malformed: "\<not> wellFormedRows rec \<Longrightarrow> rowsOf (rows rec) = []"
  by (cases "rows rec") (simp_all add: wellFormedRows_def)

lemma allRows_filter: "allRows (filter wellFormedRows records) = allRows records"
  by (induction records) (simp_all add: allRows_def rowsOf_malformed)

section \<open>The merge loops\<close>

lemma orEmpty_simps: "orEmpty None = []" "orEmpty (Some ob) = ob"
  by (simp_all add: orEmpty_def)

text \<open>
  While the prototype of the object map is \<open>Object.prototype\<close> and the key of the row does
  not reach the accessor \<open>__proto__\<close>, a step of the streaming loop looks the entry up among
  its entries, merges the row onto it and stores the result as an entry.
\<close>

lemma streamStep_plain:
  assumes "prototype m = None"
    and "rowKey ix row \<noteq> ''__proto__'' \<or> hasKey (entries m) ''__proto__''"
  shows "streamStep ix row m =
     \<lparr> entries = upsert objSet (rowKey ix) (\<lambda>v r. spread (orEmpty v) r) row (entries m),
       prototype = None \<rparr>"
proof -
  obtain ob where m: "m = \<lparr> entries = ob, prototype = None \<rparr>"
    using assms(1) by (cases m) simp
  show ?thesis
  proof (cases "objGet ob (rowKey ix row)")
    case None
    then have nk: "\<not> hasKey ob (rowKey ix row)" by (simp add: hasKey_objGet)
    with assms(2) have ne: "rowKey ix row \<noteq> ''__proto__''" by (auto simp: m)
    have "spreadProps (orObject (orObject (mapGet m (rowKey ix row)))) = []"
      by (simp add: mapGet_def None m)
    then show ?thesis
      using nk ne
      by (simp add: m streamStep_def mapSetProp_def upsert_def objSet_def None orEmpty_simps Let_def)
  next
    case (Some e)
    then have hk: "hasKey ob (rowKey ix row)" by (simp add: hasKey_objGet)
    have "spreadProps (orObject (orObject (mapGet m (rowKey ix row)))) = e"
      by (simp add: mapGet_def Some m)
    then show ?thesis
      using hk
      by (simp add: m streamStep_def mapSetProp_def upsert_def objSet_def Some orEmpty_simps Let_def)
  qed
qed

lemma fold_streamStep_plain:
  assumes "(\<forall>r \<in> set rws. rowKey ix r \<noteq> ''__proto__'') \<or> hasKey ob ''__proto__''"
  shows "fold (streamStep ix) rws \<lparr> entries = ob, prototype = None \<rparr> =
     \<lparr> entries = fold (upsert objSet (rowKey ix) (\<lambda>v r. spread (orEmpty v) r)) rws ob,
       prototype = None \<rparr>"
  using assms
proof (induction rws arbitrary: ob)
  case Nil
  show ?case by simp
next
  case (Cons r rws)
  let ?ob = "upsert objSet (rowKey ix) (\<lambda>v r. spread (orEmpty v) r) r ob"
  from Cons.prems have "rowKey ix r \<noteq> ''__proto__'' \<or> hasKey ob ''__proto__''" by auto
  then have step: "streamStep ix r \<lparr> entries = ob, prototype = None \<rparr> = \<lparr> entries = ?ob, prototype = None \<rparr>"
    by (simp add: streamStep_plain)
  from Cons.prems have "(\<forall>r \<in> set rws. rowKey ix r \<noteq> ''__proto__'') \<or> hasKey ?ob ''__proto__''"
    by (auto simp: upsert_def hasKey_objSet)
  from Cons.IH [OF this] step show ?case by simp
qed

text \<open>Entries are never removed by a write\<close>

lemma hasKey_objInsert: "hasKey (objInsert ob k v) k' \<longleftrightarrow> k' = k \<or> hasKey ob k'"
  by (auto simp: objInsert_def hasKey_def set_insertIndex split: option.splits)

lemma hasKey_objReplace: "hasKey (objReplace ob k v) k' \<longleftrightarrow> hasKey ob k'"
proof -
  have "fst ` set (objReplace ob k v) = set (map fst (objReplace ob k v))" by simp
  then show ?thesis by (simp only: hasKey_def keys_objReplace) simp
qed

lemma hasKey_mapSetProp: "hasKey (entries m) k \<Longrightarrow> hasKey (entries (mapSetProp m key e)) k"
  by (simp add: mapSetProp_def hasKey_objInsert hasKey_objReplace)

lemma hasKey_fold_streamStep:
  "hasKey (entries m) k \<Longrightarrow> hasKey (entries (fold (streamStep ix) rws m)) k"
proof (induction rws arbitrary: m)
  case Nil
  then show ?case by simp
next
  case (Cons r rws)
  from Cons.prems have "hasKey (entries (streamStep ix r m)) k"
    by (simp add: streamStep_def hasKey_mapSetProp Let_def)
  from Cons.IH [OF this] show ?case by simp
qed


lemma spread_upsert: "spread a b = fold (upsert objSet fst (\<lambda>v p. snd p)) b a"
proof -
  have "(\<lambda>(k, v) acc. objSet acc k v) = upsert objSet fst (\<lambda>v p. snd p)"
    by (rule ext, rule ext) (simp add: upsert_def split: prod.splits)
  then show ?thesis unfolding spread_def by (rule arg_cong [where f = "\<lambda>h. fold h b a"])
qed

lemma fold_concat_fold: "fold f (concat xss) = fold (fold f) xss"
  by (induction xss) simp_all

lemma overlay_upsert: "overlay e rs = fold (upsert objSet fst (\<lambda>v p. snd p)) (concat rs) e"
proof -
  have "(\<lambda>r acc. spread acc r) = (\<lambda>r. fold (upsert objSet fst (\<lambda>v p. snd p)) r)"
    by (rule ext, rule ext) (simp add: spread_upsert)
  then have "fold (\<lambda>r acc. spread acc r) rs e = fold (fold (upsert objSet fst (\<lambda>v p. snd p))) rs e"
    by (rule arg_cong [where f = "\<lambda>h. fold h rs e"])
  then show ?thesis by (simp only: overlay_def fold_concat_fold)
qed

text \<open>A field keeps the value of the last assignment\<close>

lemma upd_last_write:
  "k \<in> key ` set xs \<Longrightarrow> upd key (\<lambda>v p. g p) k xs v = upd key (\<lambda>v p. g p) k xs w"
proof (induction xs arbitrary: v w)
  case Nil
  then show ?case by simp
next
  case (Cons x xs)
  show ?case
  proof (cases "k \<in> key ` set xs")
    case True
    from Cons.IH [OF True] show ?thesis by (simp add: upd_Cons)
  next
    case False
    with Cons.prems have "key x = k" by auto
    then show ?thesis by (simp add: upd_Cons)
  qed
qed

lemma overlay_idem: "overlay (overlay e rs) rs = overlay e rs"
  unfolding overlay_upsert
  by (rule fold_upsert_idem) (rule upd_last_write)

lemma upd_fields:
  "upd fst (\<lambda>v p. snd p) f r w = (case objGet (rev r) f of Some v \<Rightarrow> Some v | None \<Rightarrow> w)"
proof (induction r arbitrary: w rule: rev_induct)
  case Nil
  show ?case by (simp add: upd_def objGet_Nil)
next
  case (snoc p r)
  obtain a b where p: "p = (a, b)" by (cases p)
  from snoc show ?case by (simp add: upd_def p objGet_Cons)
qed

lemma objGet_spread:
  "objGet (spread e r) f = (case objGet (rev r) f of Some v \<Rightarrow> Some v | None \<Rightarrow> objGet e f)"
  unfolding spread_upsert
  by (simp add: objGet_fold_upsert [of objSet, OF objGet_objSet] upd_fields)

lemma objGet_rev_distinct: "distinct (map fst r) \<Longrightarrow> objGet (rev r) f = objGet r f"
proof (induction r)
  case Nil
  show ?case by simp
next
  case (Cons p r)
  obtain a b where p: "p = (a, b)" by (cases p)
  from Cons.prems have na: "\<not> hasKey (rev r) a" by (simp add: p hasKey_def)
  from Cons have ih: "objGet (rev r) f = objGet r f" by simp
  show ?case
    using ih by (simp add: p objGet_append1 [OF na] objGet_Cons)
qed

lemma objGet_spread_absent: "\<not> hasKey r f \<Longrightarrow> objGet (spread e r) f = objGet e f"
proof -
  assume "\<not> hasKey r f"
  then have "\<not> hasKey (rev r) f" by (simp add: hasKey_def)
  then have "objGet (rev r) f = None" by (simp add: hasKey_objGet)
  then show ?thesis by (simp add: objGet_spread)
qed

lemma objGet_spread_present:
  "distinct (map fst r) \<Longrightarrow> objGet r f = Some v \<Longrightarrow> objGet (spread e r) f = Some v"
  by (simp add: objGet_spread objGet_rev_distinct)

text \<open>The entry under one key after a run of row merges\<close>

lemma upd_rows:
  "upd key (\<lambda>v r. spread (orEmpty v) r) k rws v =
     (if filter (\<lambda>r. key r = k) rws = [] then v
      else Some (overlay (orEmpty v) (filter (\<lambda>r. key r = k) rws)))"
proof (induction rws arbitrary: v)
  case Nil
  show ?case by (simp add: upd_def)
next
  case (Cons r rws)
  show ?case
  proof (cases "key r = k")
    case True
    then show ?thesis
      by (simp add: upd_Cons Cons.IH overlay_def orEmpty_simps)
  next
    case False
    then show ?thesis by (simp add: upd_Cons Cons.IH)
  qed
qed

lemma upd_rows_idem:
  "k \<in> key ` set rws \<Longrightarrow>
   upd key (\<lambda>v r. spread (orEmpty v) r) k rws (upd key (\<lambda>v r. spread (orEmpty v) r) k rws v)
     = upd key (\<lambda>v r. spread (orEmpty v) r) k rws v"
proof -
  assume "k \<in> key ` set rws"
  then have ne: "filter (\<lambda>r. key r = k) rws \<noteq> []"
    by (auto simp: filter_empty_conv)
  show ?thesis
    by (simp add: upd_rows ne orEmpty_simps overlay_idem)
qed

text \<open>
  The streaming merge when no incoming row has the key \<open>__proto__\<close>, or the persisted map
  has an entry of that name already
\<close>

lemma mergeStreaming_plain:
  assumes "hasKey (orEmpty stored) ''__proto__'' \<or> rowsWithKey ix ''__proto__'' records = []"
  shows "mergeStreaming ix stored records =
     fold (upsert objSet (rowKey ix) (\<lambda>v r. spread (orEmpty v) r)) (allRows records) (orEmpty stored)"
proof -
  from assms have "(\<forall>r \<in> set (allRows records). rowKey ix r \<noteq> ''__proto__'')
      \<or> hasKey (orEmpty stored) ''__proto__''"
    by (auto simp: rowsWithKey_def filter_empty_conv)
  then show ?thesis by (simp add: mergeStreaming_allRows fold_streamStep_plain)
qed

lemma plain_upsert_idem:
  "fold (upsert objSet (rowKey ix) (\<lambda>v r. spread (orEmpty v) r)) rws
     (fold (upsert objSet (rowKey ix) (\<lambda>v r. spread (orEmpty v) r)) rws m)
   = fold (upsert objSet (rowKey ix) (\<lambda>v r. spread (orEmpty v) r)) rws m"
  by (rule fold_upsert_idem) (rule upd_rows_idem)

lemma rowsWithKey_append:
  "rowsWithKey ix k (xs @ ys) = rowsWithKey ix k xs @ rowsWithKey ix k ys"
  by (simp add: rowsWithKey_def allRows_def)

lemma streaming_twice:
  assumes "hasKey (orEmpty stored) ''__proto__'' \<or> rowsWithKey ix ''__proto__'' records = []"
  shows "mergeStreaming ix stored (records @ records) = mergeStreaming ix stored records"
proof -
  from assms have "hasKey (orEmpty stored) ''__proto__''
      \<or> rowsWithKey ix ''__proto__'' (records @ records) = []"
    by (auto simp: rowsWithKey_append)
  then have "mergeStreaming ix stored (records @ records) =
     fold (upsert objSet (rowKey ix) (\<lambda>v r. spread (orEmpty v) r)) (allRows (records @ records)) (orEmpty stored)"
    by (rule mergeStreaming_plain)
  then show ?thesis
    by (simp add: mergeStreaming_plain [OF assms] allRows_def plain_upsert_idem)
qed

lemma streaming_again:
  assumes "hasKey (orEmpty stored) ''__proto__'' \<or> rowsWithKey ix ''__proto__'' records = []"
  shows "mergeStreaming ix (Some (mergeStreaming ix stored records)) records
     = mergeStreaming ix stored records"
proof -
  from assms have "hasKey (orEmpty (Some (mergeStreaming ix stored records))) ''__proto__''
      \<or> rowsWithKey ix ''__proto__'' records = []"
    by (auto simp: orEmpty_simps mergeStreaming_allRows hasKey_fold_streamStep)
  then have "mergeStreaming ix (Some (mergeStreaming ix stored records)) records =
     fold (upsert objSet (rowKey ix) (\<lambda>v r. spread (orEmpty v) r)) (allRows records)
       (orEmpty (Some (mergeStreaming ix stored records)))"
    by (rule mergeStreaming_plain)
  then show ?thesis
    by (simp add: mergeStreaming_plain [OF assms] orEmpty_simps plain_upsert_idem)
qed

lemma objGet_mergeStreaming:
  assumes "hasKey (orEmpty stored) ''__proto__'' \<or> rowsWithKey ix ''__proto__'' records = []"
  shows "objGet (mergeStreaming ix stored records) k =
     (if rowsWithKey ix k records = [] then objGet (orEmpty stored) k
      else Some (overlay (orEmpty (objGet (orEmpty stored) k)) (rowsWithKey ix k records)))"
  unfolding mergeStreaming_plain [OF assms] rowsWithKey_def
  by (simp only: objGet_fold_upsert [of objSet, OF objGet_objSet] upd_rows)


lemma allRows_append: "allRows (xs @ ys) = allRows xs @ allRows ys"
  by (simp add: allRows_def)

lemma hasKey_mergeStreaming:
  "hasKey (orEmpty stored) k \<Longrightarrow> hasKey (mergeStreaming ix stored records) k"
  by (simp add: mergeStreaming_allRows hasKey_fold_streamStep)


section \<open>Evaluating the model on concrete data\<close>

lemma char_of_eval: "(of_char c :: nat) = n \<Longrightarrow> char_of n = c"
  by (metis char_of_char)

lemma digitChar_eval:
  "digitChar 0 = CHR ''0''" "digitChar 1 = CHR ''1''" "digitChar (Suc 0) = CHR ''1''"
  "digitChar 2 = CHR ''2''"
  "digitChar 3 = CHR ''3''" "digitChar 4 = CHR ''4''" "digitChar 5 = CHR ''5''"
  "digitChar 6 = CHR ''6''" "digitChar 7 = CHR ''7''" "digitChar 8 = CHR ''8''"
  "digitChar 9 = CHR ''9''"
  unfolding digitChar_def by (rule char_of_eval, simp)+

lemma spread_Nil: "spread a [] = a"
  by (simp add: spread_def)

lemma spread_Cons: "spread a ((k, v) # b) = spread (objSet a k v) b"
  by (simp add: spread_def)

lemmas eval_str = intStr_def natStr.simps digitChar_eval quote_def escChar_def

lemmas eval_index = arrayIndex_def natVal_def digitVal_def isDigit_def

lemmas eval_obj = objGet_Nil objGet_Cons hasKey_Nil hasKey_Cons objReplace_Nil objReplace_Cons
  objInsert_def objSet_def mapSet_def spread_Nil spread_Cons orEmpty_simps

lemmas eval_merge = mergeStreaming_def mergeLoop_def mergeHttp_def streamStep_def httpStep_def
  rowKey_def jsGet_def objectPrototypeNames_def inheritedString_def nativeFunction_def
  mapGet_def mapSetProp_def rowsWithKey_def allRows_def Let_def

section \<open>Deduplication of the visible rows\<close>

lemma dedupeLoop_acc: "dedupeLoop ix seen out rs = out @ dedupeLoop ix seen [] rs"
proof (induction rs arbitrary: seen out)
  case Nil
  show ?case by simp
next
  case (Cons r rs)
  show ?case
  proof (cases "rowKey ix r \<in> seen")
    case True
    with Cons.IH [of seen out] show ?thesis by simp
  next
    case False
    with Cons.IH [of "insert (rowKey ix r) seen" "out @ [r]"]
      Cons.IH [of "insert (rowKey ix r) seen" "[r]"]
    show ?thesis by simp
  qed
qed

lemma dedupeLoop_Cons:
  "dedupeLoop ix seen [] (r # rs) =
     (if rowKey ix r \<in> seen then dedupeLoop ix seen [] rs
      else r # dedupeLoop ix (insert (rowKey ix r) seen) [] rs)"
  using dedupeLoop_acc [of ix "insert (rowKey ix r) seen" "[r]" rs] by simp

lemma dedupeLoop_Nil: "dedupeLoop ix seen [] [] = []"
  by simp

lemmas dedupeLoop_step = dedupeLoop_Nil dedupeLoop_Cons

declare dedupeLoop.simps [simp del]

lemma dedupeLoop_keys:
  "rowKey ix ` set (dedupeLoop ix seen [] rs) = rowKey ix ` set rs - seen"
  by (induction rs arbitrary: seen) (auto simp: dedupeLoop_step)

lemma dedupeLoop_distinct: "distinct (map (rowKey ix) (dedupeLoop ix seen [] rs))"
proof (induction rs arbitrary: seen)
  case Nil
  show ?case by (simp add: dedupeLoop_Nil)
next
  case (Cons r rs)
  have "rowKey ix r \<notin> rowKey ix ` set (dedupeLoop ix (insert (rowKey ix r) seen) [] rs)"
    by (simp add: dedupeLoop_keys)
  with Cons show ?case by (simp add: dedupeLoop_Cons)
qed

lemma dedupeLoop_subseq: "subseq (dedupeLoop ix seen [] rs) rs"
  by (induction rs arbitrary: seen) (auto simp add: dedupeLoop_step)

lemma dedupeLoop_first:
  "r \<in> set (dedupeLoop ix seen [] rs) \<Longrightarrow> find (\<lambda>x. rowKey ix x = rowKey ix r) rs = Some r"
proof (induction rs arbitrary: seen)
  case Nil
  then show ?case by (simp add: dedupeLoop_Nil)
next
  case (Cons x rs)
  show ?case
  proof (cases "rowKey ix x \<in> seen")
    case True
    with Cons.prems have in': "r \<in> set (dedupeLoop ix seen [] rs)" by (simp add: dedupeLoop_Cons)
    then have "rowKey ix r \<in> rowKey ix ` set rs - seen" using dedupeLoop_keys by blast
    with True have "rowKey ix x \<noteq> rowKey ix r" by auto
    with Cons.IH [OF in'] show ?thesis by simp
  next
    case False
    show ?thesis
    proof (cases "r = x")
      case True
      then show ?thesis by simp
    next
      case neq: False
      with False Cons.prems have in': "r \<in> set (dedupeLoop ix (insert (rowKey ix x) seen) [] rs)"
        by (simp add: dedupeLoop_Cons)
      then have "rowKey ix r \<in> rowKey ix ` set rs - insert (rowKey ix x) seen"
        using dedupeLoop_keys by blast
      then have "rowKey ix x \<noteq> rowKey ix r" by auto
      with Cons.IH [OF in'] show ?thesis by simp
    qed
  qed
qed


section \<open>Pagination\<close>

lemma pageOf_ge1: "1 \<le> pageOf sp"
  by (simp add: pageOf_def split: option.splits)

lemma pageSizeOf_pos:
  "(case pageSize settings of None \<Rightarrow> True | Some n \<Rightarrow> 0 \<le> n) \<Longrightarrow> 0 < pageSizeOf sps settings"
  by (auto simp: pageSizeOf_def settingsPageSize_def split: option.splits)

lemma jsSlice_take_drop:
  assumes "0 \<le> s" "s \<le> e"
  shows "jsSlice xs s e = take (nat (e - s)) (drop (nat s) xs)"
proof (cases "s \<le> int (length xs)")
  case True
  have "take (nat (min e (int (length xs)) - s)) (drop (nat s) xs) = take (nat (e - s)) (drop (nat s) xs)"
  proof (cases "e \<le> int (length xs)")
    case True
    then show ?thesis by (simp add: min_def)
  next
    case False
    with True assms have "length (drop (nat s) xs) \<le> nat (int (length xs) - s)"
      and "length (drop (nat s) xs) \<le> nat (e - s)" by auto
    with False show ?thesis by (simp add: min_def)
  qed
  with True assms show ?thesis by (simp add: jsSlice_def Let_def min_def)
next
  case False
  with assms show ?thesis by (simp add: jsSlice_def Let_def min_def)
qed

lemma visibleRows_paginated:
  assumes "enablePagination settings \<noteq> Some False" "1 \<le> page" "0 < ps"
  shows "visibleRows settings merged page ps = take (nat ps) (drop (nat ((page - 1) * ps)) merged)"
proof -
  from assms have "0 \<le> (page - 1) * ps" by simp
  moreover from assms have "(page - 1) * ps \<le> (page - 1) * ps + ps" by simp
  ultimately have "jsSlice merged ((page - 1) * ps) ((page - 1) * ps + ps)
      = take (nat ((page - 1) * ps + ps - (page - 1) * ps)) (drop (nat ((page - 1) * ps)) merged)"
    by (rule jsSlice_take_drop)
  with assms(1) show ?thesis by (simp add: visibleRows_def Let_def)
qed

lemma visibleRows_index:
  assumes "enablePagination settings \<noteq> Some False" "1 \<le> page" "0 < ps"
  shows "length (visibleRows settings merged page ps)
           = min (nat ps) (length merged - nat ((page - 1) * ps))"
    and "i < length (visibleRows settings merged page ps) \<Longrightarrow>
           visibleRows settings merged page ps ! i = merged ! (nat ((page - 1) * ps) + i)"
proof -
  show "length (visibleRows settings merged page ps)
           = min (nat ps) (length merged - nat ((page - 1) * ps))"
    by (simp add: visibleRows_paginated [OF assms])
  assume "i < length (visibleRows settings merged page ps)"
  then have "i < nat ps \<and> i < length merged - nat ((page - 1) * ps)"
    by (simp add: visibleRows_paginated [OF assms])
  then have "i < nat ps" and "nat ((page - 1) * ps) + i < length merged"
    by linarith+
  then show "visibleRows settings merged page ps ! i = merged ! (nat ((page - 1) * ps) + i)"
    by (simp add: visibleRows_paginated [OF assms])
qed


lemma filter_upt_interval: "filter (\<lambda>i. a \<le> i \<and> i < b) [0..<n] = [a..<min b n]"
proof (induction n)
  case 0
  show ?case by simp
next
  case (Suc n)
  show ?case
  proof (cases "n < b")
    case True
    then have m: "min b n = n" "min b (Suc n) = Suc n" by simp_all
    show ?thesis
    proof (cases "a \<le> n")
      case True
      with \<open>n < b\<close> Suc m show ?thesis by simp
    next
      case False
      with \<open>n < b\<close> Suc m show ?thesis by simp
    qed
  next
    case False
    then have "min b n = b" "min b (Suc n) = b" by simp_all
    with False Suc show ?thesis by simp
  qed
qed

lemma take_drop_nths: "take n (drop k xs) = map (\<lambda>i. xs ! i) [k..<min (k + n) (length xs)]"
  by (rule nth_equalityI) auto

lemma pageSlice_take_drop:
  assumes "1 \<le> page" "0 < ps"
  shows "pageSlice xs page ps = take (nat ps) (drop (nat ((page - 1) * ps)) xs)"
proof -
  from assms have nn: "0 \<le> (page - 1) * ps" by simp
  have "page * ps = (page - 1) * ps + ps" by (simp add: algebra_simps)
  then have "nat (page * ps) = nat ((page - 1) * ps + ps)" by simp
  also have "\<dots> = nat ((page - 1) * ps) + nat ps"
    using nn assms(2) by (simp add: nat_add_distrib)
  finally have b: "nat (page * ps) = nat ((page - 1) * ps) + nat ps" .
  have "(\<lambda>i. (page - 1) * ps \<le> int i \<and> int i < page * ps)
      = (\<lambda>i. nat ((page - 1) * ps) \<le> i \<and> i < nat (page * ps))"
    using nn by (auto simp: fun_eq_iff)
  then have "pageSlice xs page ps
      = map (\<lambda>i. xs ! i) [nat ((page - 1) * ps)..<min (nat (page * ps)) (length xs)]"
    by (simp add: pageSlice_def filter_upt_interval)
  then show ?thesis by (simp add: take_drop_nths b)
qed

section \<open>The persistence effect\<close>

lemma persistEffect_http: "persistEffect True ix merged stored = None"
  by (simp add: persistEffect_def)

lemma persistEffect_streaming:
  "persistEffect False ix merged stored =
     (if serialized (orEmpty stored) \<noteq> serialized (rekey ix merged) then Some (rekey ix merged) else None)"
  by (simp add: persistEffect_def serialized_def Let_def)

lemma save_http: "save True ix merged s = s"
  by (simp add: save_def persistEffect_http)

lemma save_streaming:
  "save False ix merged s =
     (if serialized (orEmpty (rowsValue s)) \<noteq> serialized (rekey ix merged)
      then \<lparr> rowsValue = Some (rekey ix merged), rowsWrites = rowsWrites s + 1 \<rparr> else s)"
  by (simp add: save_def persistEffect_streaming setStoredRows_def)

lemma save_suppressed:
  "serialized (orEmpty (rowsValue s)) = serialized (rekey ix merged) \<Longrightarrow> save isHttp ix merged s = s"
  by (cases isHttp) (simp_all add: save_http save_streaming)

lemma save_stored:
  "serialized (orEmpty (rowsValue (save False ix merged s))) = serialized (rekey ix merged)"
  by (simp add: save_streaming orEmpty_simps)

lemma save_twice:
  assumes "serialized (rekey ix merged') = serialized (rekey ix merged)"
  shows "save isHttp ix merged' (save isHttp ix merged s) = save isHttp ix merged s"
proof (cases isHttp)
  case True
  then show ?thesis by (simp add: save_http)
next
  case False
  have "serialized (orEmpty (rowsValue (save False ix merged s))) = serialized (rekey ix merged')"
    by (simp add: save_stored assms)
  with False show ?thesis by (simp add: save_suppressed)
qed

lemma save_writes:
  "rowsWrites (save isHttp ix merged s) =
     (if \<not> isHttp \<and> serialized (orEmpty (rowsValue s)) \<noteq> serialized (rekey ix merged)
      then rowsWrites s + 1 else rowsWrites s)"
  by (cases isHttp) (simp_all add: save_http save_streaming)

lemma rekey_eval: "rekey ''id'' [[(''id'', JNum 1), (''a'', JStr ''x'')]] = [(''1'', [(''id'', JNum 1), (''a'', JStr ''x'')])]"
  by (simp add: rekey_def eval_merge eval_obj eval_str eval_index)


section \<open>Sorting with a comparison function\<close>

lemma set_insertBy: "set (insertBy cmp x ys) = insert x (set ys)"
  by (induction ys) auto

lemma set_sortBy: "set (sortBy cmp xs) = set xs"
  by (induction xs) (simp_all add: sortBy_def set_insertBy)

lemma length_insertBy: "length (insertBy cmp x ys) = Suc (length ys)"
  by (induction ys) auto

lemma length_sortBy: "length (sortBy cmp xs) = length xs"
  by (induction xs) (simp_all add: sortBy_def length_insertBy)

lemma distinct_map_insertBy:
  "distinct (map f (insertBy cmp x ys)) = (f x \<notin> f ` set ys \<and> distinct (map f ys))"
  by (induction ys) (auto simp: set_insertBy)

lemma distinct_map_sortBy: "distinct (map f (sortBy cmp xs)) = distinct (map f xs)"
  by (induction xs) (simp_all add: sortBy_def distinct_map_insertBy set_sortBy [unfolded sortBy_def])

lemma sorted_insertBy:
  fixes f :: "'a \<Rightarrow> 'b::linorder"
  assumes key: "\<And>y. y \<in> set ys \<Longrightarrow> (cmp x y \<le> 0) = (f x \<le> f y)"
    and srt: "sorted (map f ys)"
  shows "sorted (map f (insertBy cmp x ys))"
  using assms
proof (induction ys)
  case Nil
  show ?case by simp
next
  case (Cons y ys)
  show ?case
  proof (cases "cmp x y \<le> 0")
    case True
    with Cons.prems(1) [of y] have "f x \<le> f y" by simp
    with Cons.prems(2) True show ?thesis by auto
  next
    case False
    with Cons.prems(1) [of y] have "f y \<le> f x" by simp
    moreover have "sorted (map f (insertBy cmp x ys))"
      using Cons.prems by (intro Cons.IH) auto
    ultimately show ?thesis using False Cons.prems(2) by (auto simp: set_insertBy)
  qed
qed

lemma sorted_sortBy:
  fixes f :: "'a \<Rightarrow> 'b::linorder"
  assumes "\<And>x y. x \<in> set xs \<Longrightarrow> y \<in> set xs \<Longrightarrow> (cmp x y \<le> 0) = (f x \<le> f y)"
  shows "sorted (map f (sortBy cmp xs))"
  using assms
proof (induction xs)
  case Nil
  show ?case by (simp add: sortBy_def)
next
  case (Cons x xs)
  have ih: "sorted (map f (sortBy cmp xs))"
    using Cons.prems by (intro Cons.IH) auto
  have "sorted (map f (insertBy cmp x (sortBy cmp xs)))"
  proof (rule sorted_insertBy [OF _ ih])
    fix y assume "y \<in> set (sortBy cmp xs)"
    then have "y \<in> set xs" by (simp add: set_sortBy)
    then show "(cmp x y \<le> 0) = (f x \<le> f y)" using Cons.prems by simp
  qed
  then show ?case by (simp add: sortBy_def)
qed

lemma sorted_wrt_sortBy:
  fixes f :: "'a \<Rightarrow> 'b::linorder"
  assumes "\<And>x y. x \<in> set xs \<Longrightarrow> y \<in> set xs \<Longrightarrow> (cmp x y \<le> 0) = (f x \<le> f y)"
  shows "sorted_wrt (\<lambda>a b. cmp a b \<le> 0) (sortBy cmp xs)"
proof -
  have "sorted_wrt (\<lambda>a b. f a \<le> f b) (sortBy cmp xs)"
    using sorted_sortBy [of xs cmp f] assms by (simp add: sorted_map)
  then show ?thesis
    by (rule sorted_wrt_mono_rel [rotated]) (simp add: assms set_sortBy)
qed

section \<open>The points of a series\<close>

lemma set_mapSet:
  "(k', v') \<in> set (mapSet m k v) \<Longrightarrow> (k' = k \<and> v' = v) \<or> (k', v') \<in> set m"
  by (auto simp: mapSet_def dest: set_objReplace split: if_splits)

lemma distinct_mapSet: "distinct (map fst m) \<Longrightarrow> distinct (map fst (mapSet m k v))"
  by (auto simp: mapSet_def keys_objReplace hasKey_def)

lemma keyedByTime_upsert: "keyedByTime pts = fold (upsert mapSet timeKey (\<lambda>v pt. pt)) pts []"
proof -
  have "(\<lambda>pt keyed. mapSet keyed (timeKey pt) pt) = upsert mapSet timeKey (\<lambda>v pt. pt)"
    by (rule ext, rule ext) (simp add: upsert_def)
  then show ?thesis unfolding keyedByTime_def by (rule arg_cong [where f = "\<lambda>h. fold h pts []"])
qed

lemma upd_last:
  "upd key (\<lambda>v p. p) k xs v =
     (if filter (\<lambda>p. key p = k) xs = [] then v else Some (last (filter (\<lambda>p. key p = k) xs)))"
  by (induction xs arbitrary: v) (simp_all add: upd_def)

lemma objGet_keyedByTime:
  "objGet (keyedByTime pts) k =
     (if filter (\<lambda>p. timeKey p = k) pts = [] then None
      else Some (last (filter (\<lambda>p. timeKey p = k) pts)))"
  unfolding keyedByTime_upsert
  by (simp only: objGet_fold_upsert [of mapSet, OF objGet_mapSet] upd_last objGet_Nil)

lemma keyedByTime_invariant:
  "distinct (map fst (fold (\<lambda>pt keyed. mapSet keyed (timeKey pt) pt) pts m))
   \<and> (\<forall>(k, p) \<in> set (fold (\<lambda>pt keyed. mapSet keyed (timeKey pt) pt) pts m). timeKey p = k)"
  if "distinct (map fst m)" "\<forall>(k, p) \<in> set m. timeKey p = k"
  using that
proof (induction pts arbitrary: m)
  case Nil
  then show ?case by simp
next
  case (Cons pt pts)
  have d: "distinct (map fst (mapSet m (timeKey pt) pt))"
    using Cons.prems(1) by (rule distinct_mapSet)
  have w: "\<forall>(k, p) \<in> set (mapSet m (timeKey pt) pt). timeKey p = k"
    using Cons.prems(2) by (auto dest: set_mapSet)
  from Cons.IH [OF d w] show ?case by simp
qed

lemma keyedByTime_distinct: "distinct (map fst (keyedByTime pts))"
  using keyedByTime_invariant [of "[]" pts] by (simp add: keyedByTime_def)

lemma keyedByTime_keyed: "(k, p) \<in> set (keyedByTime pts) \<Longrightarrow> timeKey p = k"
  using keyedByTime_invariant [of "[]" pts] by (auto simp: keyedByTime_def)

lemma keyedByTime_keys: "map timeKey (map snd (keyedByTime pts)) = map fst (keyedByTime pts)"
  by (auto simp: keyedByTime_keyed)

lemma keyedByTime_domain: "fst ` set (keyedByTime pts) = timeKey ` set pts"
proof -
  have "hasKey (keyedByTime pts) k \<longleftrightarrow> k \<in> timeKey ` set pts" for k
    unfolding keyedByTime_upsert
    by (simp add: hasKey_fold_upsert [of mapSet, OF objGet_mapSet] hasKey_Nil)
  then show ?thesis by (auto simp: hasKey_def)
qed

lemma keyedByTime_last:
  assumes "p \<in> snd ` set (keyedByTime pts)"
  shows "p = last (filter (\<lambda>q. timeKey q = timeKey p) pts)"
proof -
  from assms obtain k where kp: "(k, p) \<in> set (keyedByTime pts)" by auto
  then have k: "timeKey p = k" by (rule keyedByTime_keyed)
  from kp keyedByTime_distinct have "map_of (keyedByTime pts) k = Some p" by simp
  then have "objGet (keyedByTime pts) (timeKey p) = Some p" by (simp add: objGet_def k)
  then show ?thesis by (simp add: objGet_keyedByTime split: if_splits)
qed

lemma seriesData_sort: "seriesData pts = sortBy compareTime (map snd (keyedByTime pts))"
  by (cases pts) (simp_all add: seriesData_def keyedByTime_def sortBy_def)

lemma seriesData_distinct: "distinct (map timeKey (seriesData pts))"
proof -
  have "distinct (map timeKey (map snd (keyedByTime pts)))"
    by (simp only: keyedByTime_keys keyedByTime_distinct)
  then show ?thesis by (simp only: seriesData_sort distinct_map_sortBy)
qed

lemma seriesData_keys: "timeKey ` set (seriesData pts) = timeKey ` set pts"
proof -
  have "timeKey ` set (seriesData pts) = set (map timeKey (map snd (keyedByTime pts)))"
    by (simp only: seriesData_sort set_sortBy set_map)
  also have "\<dots> = fst ` set (keyedByTime pts)" by (simp only: keyedByTime_keys set_map)
  finally show ?thesis by (simp add: keyedByTime_domain)
qed

lemma seriesData_last:
  "p \<in> set (seriesData pts) \<Longrightarrow> p = last (filter (\<lambda>q. timeKey q = timeKey p) pts)"
  by (rule keyedByTime_last) (simp add: seriesData_sort set_sortBy)

lemma seriesData_subset: "set (seriesData pts) \<subseteq> set pts"
proof
  fix p assume a: "p \<in> set (seriesData pts)"
  then have p: "p = last (filter (\<lambda>q. timeKey q = timeKey p) pts)" by (rule seriesData_last)
  from a have "timeKey p \<in> timeKey ` set pts" using seriesData_keys by blast
  then have "filter (\<lambda>q. timeKey q = timeKey p) pts \<noteq> []" by (auto simp: filter_empty_conv)
  then have "last (filter (\<lambda>q. timeKey q = timeKey p) pts) \<in> set (filter (\<lambda>q. timeKey q = timeKey p) pts)"
    by (rule last_in_set)
  with p show "p \<in> set pts" by auto
qed

lemma compareTime_numeric:
  "timeNum a = Some x \<Longrightarrow> timeNum b = Some y \<Longrightarrow> compareTime a b = x - y"
  by (auto simp: compareTime_def timeNum_def split: option.splits jv.splits)

lemma compareTime_string:
  "timeNum a = None \<or> timeNum b = None \<Longrightarrow>
   compareTime a b = (if timeKey a < timeKey b then - 1 else if timeKey b < timeKey a then 1 else 0)"
  by (auto simp: compareTime_def timeNum_def timeKey_def Let_def split: option.splits jv.splits)

lemma distinct_map_outer: "distinct (map g ys) \<Longrightarrow> distinct ys"
  by (induction ys) auto

lemma seriesData_numeric:
  assumes "allNumeric pts"
  shows "sorted_wrt (<) (map (\<lambda>p. the (timeNum p)) (seriesData pts))"
    and "ascendingByTime (seriesData pts)"
proof -
  let ?d = "map snd (keyedByTime pts)"
  have num: "\<exists>n. timeNum p = Some n" if "p \<in> set ?d" for p
  proof -
    from that have "p \<in> set (seriesData pts)" by (simp add: seriesData_sort set_sortBy)
    with seriesData_subset have "p \<in> set pts" by blast
    with assms show ?thesis by (auto simp: allNumeric_def list_all_iff)
  qed
  have cmp: "(compareTime x y \<le> 0) = (the (timeNum x) \<le> the (timeNum y))"
    if "x \<in> set ?d" "y \<in> set ?d" for x y
  proof -
    from num [OF that(1)] num [OF that(2)] obtain a b where "timeNum x = Some a" "timeNum y = Some b"
      by blast
    then show ?thesis by (simp add: compareTime_numeric)
  qed
  have srt: "sorted (map (\<lambda>p. the (timeNum p)) (seriesData pts))"
    unfolding seriesData_sort by (rule sorted_sortBy) (rule cmp)
  have key: "timeKey p = intStr (the (timeNum p))" if "p \<in> set (seriesData pts)" for p
  proof -
    from that have "p \<in> set ?d" by (simp add: seriesData_sort set_sortBy)
    from num [OF this] obtain n where "timeNum p = Some n" by blast
    then show ?thesis
      by (auto simp: timeNum_def timeKey_def timeString_def split: option.splits jv.splits)
  qed
  have "map timeKey (seriesData pts) = map intStr (map (\<lambda>p. the (timeNum p)) (seriesData pts))"
    by (simp add: key)
  with seriesData_distinct [of pts]
  have "distinct (map intStr (map (\<lambda>p. the (timeNum p)) (seriesData pts)))" by simp
  then have "distinct (map (\<lambda>p. the (timeNum p)) (seriesData pts))" by (rule distinct_map_outer)
  with srt show "sorted_wrt (<) (map (\<lambda>p. the (timeNum p)) (seriesData pts))"
    by (simp add: strict_sorted_iff)
  show "ascendingByTime (seriesData pts)"
    unfolding ascendingByTime_def seriesData_sort
    by (rule sorted_wrt_sortBy [where f = "\<lambda>p. the (timeNum p)"]) (rule cmp)
qed

lemma seriesData_strings:
  assumes "noneNumeric pts"
  shows "sorted_wrt (<) (map timeKey (seriesData pts))"
    and "ascendingByTime (seriesData pts)"
proof -
  let ?d = "map snd (keyedByTime pts)"
  have nonum: "timeNum p = None" if "p \<in> set ?d" for p
  proof -
    from that have "p \<in> set (seriesData pts)" by (simp add: seriesData_sort set_sortBy)
    with seriesData_subset have "p \<in> set pts" by blast
    with assms show ?thesis by (auto simp: noneNumeric_def list_all_iff)
  qed
  have cmp: "(compareTime x y \<le> 0) = (timeKey x \<le> timeKey y)"
    if "x \<in> set ?d" "y \<in> set ?d" for x y
    using nonum [OF that(1)] by (auto simp: compareTime_string)
  have "sorted (map timeKey (seriesData pts))"
    unfolding seriesData_sort by (rule sorted_sortBy) (rule cmp)
  with seriesData_distinct [of pts] show "sorted_wrt (<) (map timeKey (seriesData pts))"
    by (simp add: strict_sorted_iff)
  show "ascendingByTime (seriesData pts)"
    unfolding ascendingByTime_def seriesData_sort
    by (rule sorted_wrt_sortBy [where f = timeKey]) (rule cmp)
qed

lemmas eval_series = seriesData_def keyedByTime_def sortBy_def timeKey_def timeString_def
  compareTime_def timeNum_def

lemma seriesData_example_numbers:
  "seriesData [[(''time'', JNum 3), (''value'', JNum 30)], [(''time'', JNum 1), (''value'', JNum 10)],
               [(''time'', JNum 2), (''value'', JNum 20)]]
     = [[(''time'', JNum 1), (''value'', JNum 10)], [(''time'', JNum 2), (''value'', JNum 20)],
        [(''time'', JNum 3), (''value'', JNum 30)]]"
  by (simp add: eval_series eval_obj eval_str)

lemma seriesData_example_strings:
  "seriesData [[(''time'', JStr ''2024-01-02''), (''value'', JNum 2)],
               [(''time'', JStr ''2024-01-01''), (''value'', JNum 1)]]
     = [[(''time'', JStr ''2024-01-01''), (''value'', JNum 1)],
        [(''time'', JStr ''2024-01-02''), (''value'', JNum 2)]]"
  by (simp add: eval_series eval_obj eval_str)

lemma seriesData_example_last_write:
  "seriesData [[(''time'', JNum 1), (''value'', JNum 10)], [(''time'', JNum 2), (''value'', JNum 20)],
               [(''time'', JNum 1), (''value'', JNum 11)]]
     = [[(''time'', JNum 1), (''value'', JNum 11)], [(''time'', JNum 2), (''value'', JNum 20)]]"
  by (simp add: eval_series eval_obj eval_str)

lemma seriesData_example_malformed:
  "seriesData [[(''time'', JStr ''soon''), (''value'', JNum 2)], [(''time'', JNull)], [(''value'', JNum 1)],
               [(''time'', JStr ''2024-01-01''), (''value'', JNum 1)]]
     = [[(''time'', JStr ''2024-01-01''), (''value'', JNum 1)], [(''time'', JNull)],
        [(''time'', JStr ''soon''), (''value'', JNum 2)], [(''value'', JNum 1)]]"
  by (simp add: eval_series eval_obj eval_str)

lemma seriesData_example_mixed:
  "seriesData [[(''time'', JNum 10)], [(''time'', JStr ''15'')], [(''time'', JNum 2)]]
     = [[(''time'', JNum 10)], [(''time'', JStr ''15'')], [(''time'', JNum 2)]]"
  by (simp add: eval_series eval_obj eval_str)

section \<open>The page after a render\<close>

lemma commit_effectList_rows:
  "storedPage (commit (effectList x SetStoredRows) st) = storedPage st"
  by (cases x) (simp_all add: commit_def effectList_def)

lemma storedPage_renderCommit_empty:
  "mergedRows isHttp (indexColumnOf settings) (storedRows st) records = [] \<Longrightarrow>
   storedPage (renderCommit isHttp settings records st) = storedPage st"
  by (simp add: renderCommit_def TableCard_def Let_def commit_effectList_rows)

lemma storedPage_renderCommit_rows:
  assumes "mergedRows isHttp (indexColumnOf settings) (storedRows st) records \<noteq> []"
  shows "storedPage (renderCommit isHttp settings records st) =
     (case clampEffect (int (length (mergedRows isHttp (indexColumnOf settings) (storedRows st) records)))
             (pageOf (storedPage st)) (pageSizeOf (storedPageSize st) settings) of
        None \<Rightarrow> storedPage st
      | Some p \<Rightarrow> Some p)"
proof -
  have "storedPage (commit (effectList x SetStoredRows @ effectList y SetPage) st)
      = (case y of None \<Rightarrow> storedPage st | Some p \<Rightarrow> Some p)" for x y
    by (cases x; cases y) (simp_all add: commit_def effectList_def)
  with assms show ?thesis by (simp add: renderCommit_def TableCard_def Let_def)
qed

lemma page_clamped_with_rows:
  assumes "mergedRows isHttp (indexColumnOf settings) (storedRows st) records \<noteq> []"
  shows "1 \<le> pageOf (storedPage (renderCommit isHttp settings records st))"
    and "pageOf (storedPage (renderCommit isHttp settings records st))
          \<le> totalPages (int (length (mergedRows isHttp (indexColumnOf settings) (storedRows st) records)))
                (pageSizeOf (storedPageSize st) settings)"
proof -
  show "1 \<le> pageOf (storedPage (renderCommit isHttp settings records st))"
    by (rule pageOf_ge1)
  have tp: "1 \<le> totalPages c ps" for c ps by (simp add: totalPages_def)
  show "pageOf (storedPage (renderCommit isHttp settings records st))
          \<le> totalPages (int (length (mergedRows isHttp (indexColumnOf settings) (storedRows st) records)))
                (pageSizeOf (storedPageSize st) settings)"
    using tp [of "int (length (mergedRows isHttp (indexColumnOf settings) (storedRows st) records))"
        "pageSizeOf (storedPageSize st) settings"]
    by (auto simp: storedPage_renderCommit_rows [OF assms] clampEffect_def pageOf_def
        split: option.splits if_splits)
qed

section \<open>Properties of the reconciliation engine\<close>

text \<open>
  Claim C1 (accumulate mode). The streaming branch of \<open>mergedRows\<close> starts from the
  persisted object map and for each incoming row, in arrival order, shallow-merges the row
  onto the entry under its key, creating the entry when there is none. The code does so in
  every merge but those with the key \<open>__proto__\<close>. When no incoming row has the key
  \<open>__proto__\<close> (or the persisted map already has an entry of that name), the entry under a
  key that no incoming row carries is the persisted one, unchanged, and the entry under a
  key that some incoming row carries is the persisted entry (or an empty object when there
  is none) with the rows of that key shallow-merged onto it in arrival order. A shallow merge keeps every property the row does
  not mention and takes the row's value for every property it has. No persisted entry ever
  disappears. Merging the batch \<open>[{id:1,a:"x"}]\<close> and then
  \<open>[{id:1,b:"y"},{id:2,a:"z"}]\<close> into an empty collection yields
  \<open>{1:{id:1,a:"x",b:"y"}, 2:{id:2,a:"z"}}\<close>.

  A row whose key is \<open>__proto__\<close> gets no entry: the write \<open>merged[key] = ...\<close> on the plain
  object \<open>merged\<close> runs the setter of \<open>Object.prototype\<close> and replaces the prototype of
  \<open>merged\<close>, so the row is missing from \<open>Object.values(merged)\<close>. From the batch
  \<open>[{id:"__proto__",a:"x"},{id:2}]\<close> the streaming branch keeps only \<open>{id:2}\<close>, while the HTTP
  branch, which collects the entries in a \<open>Map\<close>, keeps both rows.
\<close>

theorem C1_accumulate_merge:
  "(hasKey (orEmpty stored) ''__proto__'' \<or> rowsWithKey ix ''__proto__'' records = [] \<longrightarrow>
      objGet (mergeStreaming ix stored records) k =
       (if rowsWithKey ix k records = [] then objGet (orEmpty stored) k
        else Some (overlay (orEmpty (objGet (orEmpty stored) k)) (rowsWithKey ix k records))))
   \<and> (\<not> hasKey r f \<longrightarrow> objGet (spread e r) f = objGet e f)
   \<and> (distinct (map fst r) \<and> objGet r f = Some v \<longrightarrow> objGet (spread e r) f = Some v)
   \<and> (hasKey (orEmpty stored) k \<longrightarrow> hasKey (mergeStreaming ix stored records) k)
   \<and> mergedRows False ix stored records = map snd (mergeStreaming ix stored records)
   \<and> mergeStreaming ''id'' (Some [])
        [\<lparr>rows = RowsArray [[(''id'', JNum 1), (''a'', JStr ''x'')]]\<rparr>,
         \<lparr>rows = RowsArray [[(''id'', JNum 1), (''b'', JStr ''y'')],
                             [(''id'', JNum 2), (''a'', JStr ''z'')]]\<rparr>]
       = [(''1'', [(''id'', JNum 1), (''a'', JStr ''x''), (''b'', JStr ''y'')]),
          (''2'', [(''id'', JNum 2), (''a'', JStr ''z'')])]
   \<and> mergedRows False ''id'' (Some [])
        [\<lparr>rows = RowsArray [[(''id'', JStr ''__proto__''), (''a'', JStr ''x'')], [(''id'', JNum 2)]]\<rparr>]
       = [[(''id'', JNum 2)]]
   \<and> mergedRows True ''id'' (Some [])
        [\<lparr>rows = RowsArray [[(''id'', JStr ''__proto__''), (''a'', JStr ''x'')], [(''id'', JNum 2)]]\<rparr>]
       = [[(''id'', JStr ''__proto__''), (''a'', JStr ''x'')], [(''id'', JNum 2)]]"
proof -
  have ex: "mergeStreaming ''id'' (Some [])
        [\<lparr>rows = RowsArray [[(''id'', JNum 1), (''a'', JStr ''x'')]]\<rparr>,
         \<lparr>rows = RowsArray [[(''id'', JNum 1), (''b'', JStr ''y'')],
                             [(''id'', JNum 2), (''a'', JStr ''z'')]]\<rparr>]
       = [(''1'', [(''id'', JNum 1), (''a'', JStr ''x''), (''b'', JStr ''y'')]),
          (''2'', [(''id'', JNum 2), (''a'', JStr ''z'')])]"
    by (simp add: eval_merge eval_obj eval_str eval_index)
  have lost: "mergedRows False ''id'' (Some [])
        [\<lparr>rows = RowsArray [[(''id'', JStr ''__proto__''), (''a'', JStr ''x'')], [(''id'', JNum 2)]]\<rparr>]
       = [[(''id'', JNum 2)]]"
    by (simp add: mergedRows_def eval_merge eval_obj eval_str eval_index)
  have kept: "mergedRows True ''id'' (Some [])
        [\<lparr>rows = RowsArray [[(''id'', JStr ''__proto__''), (''a'', JStr ''x'')], [(''id'', JNum 2)]]\<rparr>]
       = [[(''id'', JStr ''__proto__''), (''a'', JStr ''x'')], [(''id'', JNum 2)]]"
    by (simp add: mergedRows_def eval_merge eval_obj eval_str eval_index)
  have gen: "hasKey (orEmpty stored) ''__proto__'' \<or> rowsWithKey ix ''__proto__'' records = [] \<longrightarrow>
      objGet (mergeStreaming ix stored records) k =
       (if rowsWithKey ix k records = [] then objGet (orEmpty stored) k
        else Some (overlay (orEmpty (objGet (orEmpty stored) k)) (rowsWithKey ix k records)))"
    using objGet_mergeStreaming [of stored ix records k] by blast
  have keep: "hasKey (orEmpty stored) k \<longrightarrow> hasKey (mergeStreaming ix stored records) k"
    by (simp add: hasKey_mergeStreaming)
  have vals: "mergedRows False ix stored records = map snd (mergeStreaming ix stored records)"
    by (simp add: mergedRows_def)
  have s1: "\<not> hasKey r f \<longrightarrow> objGet (spread e r) f = objGet e f"
    using objGet_spread_absent [of r f e] by blast
  have s2: "distinct (map fst r) \<and> objGet r f = Some v \<longrightarrow> objGet (spread e r) f = Some v"
    using objGet_spread_present [of r f v e] by blast
  from gen s1 s2 keep vals ex lost kept show ?thesis by (intro conjI)
qed

theorem C1_accumulate_merge_witness:
  "hasKey (orEmpty (Some [(''7'', [(''id'', JNum 7), (''a'', JStr ''old'')])])) ''7''
   \<and> rowsWithKey ''id'' ''__proto__'' [\<lparr>rows = RowsArray [[(''id'', JNum 8), (''b'', JStr ''new'')]]\<rparr>] = []
   \<and> objGet (mergeStreaming ''id'' (Some [(''7'', [(''id'', JNum 7), (''a'', JStr ''old'')])])
        [\<lparr>rows = RowsArray [[(''id'', JNum 8), (''b'', JStr ''new'')]]\<rparr>]) ''7''
       = Some [(''id'', JNum 7), (''a'', JStr ''old'')]
   \<and> hasKey (mergeStreaming ''id'' (Some [(''7'', [(''id'', JNum 7), (''a'', JStr ''old'')])])
        [\<lparr>rows = RowsArray [[(''id'', JNum 8), (''b'', JStr ''new'')]]\<rparr>]) ''7''
   \<and> \<not> hasKey [(''id'', JNum 8), (''b'', JStr ''new'')] ''a''
   \<and> objGet (spread [(''id'', JNum 7), (''a'', JStr ''old'')] [(''id'', JNum 8), (''b'', JStr ''new'')]) ''a''
       = Some (JStr ''old'')
   \<and> objGet (spread [(''id'', JNum 7), (''a'', JStr ''old'')] [(''id'', JNum 8), (''b'', JStr ''new'')]) ''b''
       = Some (JStr ''new'')"
proof -
  have h0: "rowsWithKey ''id'' ''__proto__'' [\<lparr>rows = RowsArray [[(''id'', JNum 8), (''b'', JStr ''new'')]]\<rparr>] = []"
    by (simp add: eval_merge eval_obj eval_str eval_index)
  have h0': "rowsWithKey ''id'' ''7'' [\<lparr>rows = RowsArray [[(''id'', JNum 8), (''b'', JStr ''new'')]]\<rparr>] = []"
    by (simp add: eval_merge eval_obj eval_str eval_index)
  have h1: "hasKey (orEmpty (Some [(''7'', [(''id'', JNum 7), (''a'', JStr ''old'')])])) ''7''"
    by (simp add: orEmpty_def hasKey_def)
  have h2: "\<not> hasKey [(''id'', JNum 8), (''b'', JStr ''new'')] ''a''"
    by (simp add: hasKey_def)
  have h3: "distinct (map fst [(''id'', JNum 8), (''b'', JStr ''new'')])
      \<and> objGet [(''id'', JNum 8), (''b'', JStr ''new'')] ''b'' = Some (JStr ''new'')"
    by (simp add: objGet_def)
  have g: "objGet [(''id'', JNum 7), (''a'', JStr ''old'')] ''a'' = Some (JStr ''old'')"
    by (simp add: objGet_def)
  have g': "objGet (orEmpty (Some [(''7'', [(''id'', JNum 7), (''a'', JStr ''old'')])])) ''7''
      = Some [(''id'', JNum 7), (''a'', JStr ''old'')]"
    by (simp add: orEmpty_def objGet_def)
  from C1_accumulate_merge [where ix = "''id''"
        and stored = "Some [(''7'', [(''id'', JNum 7), (''a'', JStr ''old'')])]"
        and records = "[\<lparr>rows = RowsArray [[(''id'', JNum 8), (''b'', JStr ''new'')]]\<rparr>]"
        and k = "''7''" and r = "[(''id'', JNum 8), (''b'', JStr ''new'')]" and f = "''a''"
        and e = "[(''id'', JNum 7), (''a'', JStr ''old'')]" and v = JNull]
    C1_accumulate_merge [where ix = "''id''"
        and stored = "Some [(''7'', [(''id'', JNum 7), (''a'', JStr ''old'')])]"
        and records = "[\<lparr>rows = RowsArray [[(''id'', JNum 8), (''b'', JStr ''new'')]]\<rparr>]"
        and k = "''7''" and r = "[(''id'', JNum 8), (''b'', JStr ''new'')]" and f = "''b''"
        and e = "[(''id'', JNum 7), (''a'', JStr ''old'')]" and v = "JStr ''new''"]
    h0 h0' h1 h2 h3 g g'
  show ?thesis by simp
qed

text \<open>
  The row keyed \<open>__proto__\<close> has no entry after the streaming merge, and it is not among
  the merged rows: it has become the prototype of \<open>merged\<close>.
\<close>

theorem C1_row_keyed_proto_gets_no_entry:
  "rowsWithKey ''id'' ''__proto__''
      [\<lparr>rows = RowsArray [[(''id'', JStr ''__proto__''), (''a'', JStr ''x'')], [(''id'', JNum 2)]]\<rparr>]
     = [[(''id'', JStr ''__proto__''), (''a'', JStr ''x'')]]
   \<and> mergeLoop ''id'' (Some [])
        [\<lparr>rows = RowsArray [[(''id'', JStr ''__proto__''), (''a'', JStr ''x'')], [(''id'', JNum 2)]]\<rparr>]
       = \<lparr>entries = [(''2'', [(''id'', JNum 2)])],
          prototype = Some [(''id'', JStr ''__proto__''), (''a'', JStr ''x'')]\<rparr>
   \<and> objGet (mergeStreaming ''id'' (Some [])
        [\<lparr>rows = RowsArray [[(''id'', JStr ''__proto__''), (''a'', JStr ''x'')], [(''id'', JNum 2)]]\<rparr>])
        ''__proto__'' = None
   \<and> mergedRows False ''id'' (Some [])
        [\<lparr>rows = RowsArray [[(''id'', JStr ''__proto__''), (''a'', JStr ''x'')], [(''id'', JNum 2)]]\<rparr>]
       = [[(''id'', JNum 2)]]"
  by (simp add: mergedRows_def eval_merge eval_obj eval_str eval_index)



text \<open>
  Claim C3 (idempotent merge). In streaming mode, merging a batch twice gives the same
  object map as merging it once, both when the batch occurs twice in the records of one
  call and when the result of the first call is the persisted map of a second call, and the
  same holds for any sequence of batches: whenever no incoming row has the key
  \<open>__proto__\<close>, or the persisted map already has an entry of that name.

  Without that condition the merge need not be idempotent. The row
  \<open>{"id":"__proto__","__proto__":1}\<close>, as \<open>JSON.parse\<close> builds it, has the key \<open>__proto__\<close>
  and a property \<open>__proto__\<close> of its own. Merged once into an empty collection it becomes
  the prototype of \<open>merged\<close> and leaves no entry. Merged a second time in the same call, the
  write finds \<open>__proto__\<close> as a data property of that prototype and therefore creates an entry,
  so the batch merged twice yields one row and merged once yields none. The HTTP branch,
  which collects the entries in a \<open>Map\<close>, gives the same result for both.
\<close>

theorem C3_accumulate_idempotent:
  "(hasKey (orEmpty stored) ''__proto__'' \<or> rowsWithKey ix ''__proto__'' [b] = [] \<longrightarrow>
      mergeStreaming ix stored [b, b] = mergeStreaming ix stored [b]
      \<and> mergeStreaming ix (Some (mergeStreaming ix stored [b])) [b] = mergeStreaming ix stored [b])
   \<and> (hasKey (orEmpty stored) ''__proto__'' \<or> rowsWithKey ix ''__proto__'' records = [] \<longrightarrow>
      mergeStreaming ix stored (records @ records) = mergeStreaming ix stored records
      \<and> mergeStreaming ix (Some (mergeStreaming ix stored records)) records
          = mergeStreaming ix stored records)
   \<and> mergeStreaming ''id'' (Some [])
        [\<lparr>rows = RowsArray [[(''id'', JStr ''__proto__''), (''__proto__'', JNum 1)]]\<rparr>] = []
   \<and> mergeStreaming ''id'' (Some [])
        [\<lparr>rows = RowsArray [[(''id'', JStr ''__proto__''), (''__proto__'', JNum 1)]]\<rparr>,
         \<lparr>rows = RowsArray [[(''id'', JStr ''__proto__''), (''__proto__'', JNum 1)]]\<rparr>]
       = [(''__proto__'', [(''id'', JStr ''__proto__''), (''__proto__'', JNum 1)])]
   \<and> mergeHttp ''id''
        [\<lparr>rows = RowsArray [[(''id'', JStr ''__proto__''), (''__proto__'', JNum 1)]]\<rparr>,
         \<lparr>rows = RowsArray [[(''id'', JStr ''__proto__''), (''__proto__'', JNum 1)]]\<rparr>]
       = mergeHttp ''id''
        [\<lparr>rows = RowsArray [[(''id'', JStr ''__proto__''), (''__proto__'', JNum 1)]]\<rparr>]"
proof -
  have twice: "mergeStreaming ix stored (rs @ rs) = mergeStreaming ix stored rs"
    if "hasKey (orEmpty stored) ''__proto__'' \<or> rowsWithKey ix ''__proto__'' rs = []" for rs
    using that by (rule streaming_twice)
  have again: "mergeStreaming ix (Some (mergeStreaming ix stored rs)) rs = mergeStreaming ix stored rs"
    if "hasKey (orEmpty stored) ''__proto__'' \<or> rowsWithKey ix ''__proto__'' rs = []" for rs
    using that by (rule streaming_again)
  have a: "hasKey (orEmpty stored) ''__proto__'' \<or> rowsWithKey ix ''__proto__'' [b] = [] \<longrightarrow>
      mergeStreaming ix stored [b, b] = mergeStreaming ix stored [b]
      \<and> mergeStreaming ix (Some (mergeStreaming ix stored [b])) [b] = mergeStreaming ix stored [b]"
    using twice [of "[b]"] again [of "[b]"] by simp
  have b: "hasKey (orEmpty stored) ''__proto__'' \<or> rowsWithKey ix ''__proto__'' records = [] \<longrightarrow>
      mergeStreaming ix stored (records @ records) = mergeStreaming ix stored records
      \<and> mergeStreaming ix (Some (mergeStreaming ix stored records)) records
          = mergeStreaming ix stored records"
    using twice [of records] again [of records] by blast
  have once: "mergeStreaming ''id'' (Some [])
        [\<lparr>rows = RowsArray [[(''id'', JStr ''__proto__''), (''__proto__'', JNum 1)]]\<rparr>] = []"
    by (simp add: eval_merge eval_obj eval_str eval_index)
  have both: "mergeStreaming ''id'' (Some [])
        [\<lparr>rows = RowsArray [[(''id'', JStr ''__proto__''), (''__proto__'', JNum 1)]]\<rparr>,
         \<lparr>rows = RowsArray [[(''id'', JStr ''__proto__''), (''__proto__'', JNum 1)]]\<rparr>]
       = [(''__proto__'', [(''id'', JStr ''__proto__''), (''__proto__'', JNum 1)])]"
    by (simp add: eval_merge eval_obj eval_str eval_index)
  have http: "mergeHttp ''id''
        [\<lparr>rows = RowsArray [[(''id'', JStr ''__proto__''), (''__proto__'', JNum 1)]]\<rparr>,
         \<lparr>rows = RowsArray [[(''id'', JStr ''__proto__''), (''__proto__'', JNum 1)]]\<rparr>]
       = mergeHttp ''id''
        [\<lparr>rows = RowsArray [[(''id'', JStr ''__proto__''), (''__proto__'', JNum 1)]]\<rparr>]"
    by (simp add: eval_merge eval_obj eval_str eval_index)
  from a b once both http show ?thesis by (intro conjI)
qed

theorem C3_accumulate_idempotent_witness:
  "rowsWithKey ''id'' ''__proto__''
      [\<lparr>rows = RowsArray [[(''id'', JNum 1), (''a'', JStr ''x'')], [(''id'', JNum 1), (''b'', JStr ''y'')]]\<rparr>] = []
   \<and> mergeStreaming ''id'' (Some [])
        [\<lparr>rows = RowsArray [[(''id'', JNum 1), (''a'', JStr ''x'')], [(''id'', JNum 1), (''b'', JStr ''y'')]]\<rparr>,
         \<lparr>rows = RowsArray [[(''id'', JNum 1), (''a'', JStr ''x'')], [(''id'', JNum 1), (''b'', JStr ''y'')]]\<rparr>]
       = [(''1'', [(''id'', JNum 1), (''a'', JStr ''x''), (''b'', JStr ''y'')])]
   \<and> mergeStreaming ''id'' (Some [(''1'', [(''id'', JNum 1), (''a'', JStr ''x''), (''b'', JStr ''y'')])])
        [\<lparr>rows = RowsArray [[(''id'', JNum 1), (''a'', JStr ''x'')], [(''id'', JNum 1), (''b'', JStr ''y'')]]\<rparr>]
       = [(''1'', [(''id'', JNum 1), (''a'', JStr ''x''), (''b'', JStr ''y'')])]"
proof -
  have h: "rowsWithKey ''id'' ''__proto__''
      [\<lparr>rows = RowsArray [[(''id'', JNum 1), (''a'', JStr ''x'')], [(''id'', JNum 1), (''b'', JStr ''y'')]]\<rparr>] = []"
    by (simp add: eval_merge eval_obj eval_str eval_index)
  have once: "mergeStreaming ''id'' (Some [])
        [\<lparr>rows = RowsArray [[(''id'', JNum 1), (''a'', JStr ''x'')], [(''id'', JNum 1), (''b'', JStr ''y'')]]\<rparr>]
       = [(''1'', [(''id'', JNum 1), (''a'', JStr ''x''), (''b'', JStr ''y'')])]"
    by (simp add: eval_merge eval_obj eval_str eval_index)
  from C3_accumulate_idempotent [where ix = "''id''" and stored = "Some []"
      and b = "\<lparr>rows = RowsArray [[(''id'', JNum 1), (''a'', JStr ''x'')], [(''id'', JNum 1), (''b'', JStr ''y'')]]\<rparr>"
      and records = "[\<lparr>rows = RowsArray [[(''id'', JNum 1), (''a'', JStr ''x'')], [(''id'', JNum 1), (''b'', JStr ''y'')]]\<rparr>]"]
    h once
  show ?thesis by simp
qed

text \<open>
  Merging the batch whose one row is \<open>{"id":"__proto__","__proto__":1}\<close> twice does not give
  what merging it once gives: after the first pass the row is the prototype of \<open>merged\<close>,
  after the second it is an entry as well.
\<close>

theorem C3_merging_twice_differs:
  "mergeLoop ''id'' (Some [])
        [\<lparr>rows = RowsArray [[(''id'', JStr ''__proto__''), (''__proto__'', JNum 1)]]\<rparr>]
     = \<lparr>entries = [], prototype = Some [(''id'', JStr ''__proto__''), (''__proto__'', JNum 1)]\<rparr>
   \<and> mergeLoop ''id'' (Some [])
        [\<lparr>rows = RowsArray [[(''id'', JStr ''__proto__''), (''__proto__'', JNum 1)]]\<rparr>,
         \<lparr>rows = RowsArray [[(''id'', JStr ''__proto__''), (''__proto__'', JNum 1)]]\<rparr>]
     = \<lparr>entries = [(''__proto__'', [(''id'', JStr ''__proto__''), (''__proto__'', JNum 1)])],
        prototype = Some [(''id'', JStr ''__proto__''), (''__proto__'', JNum 1)]\<rparr>
   \<and> mergedRows False ''id'' (Some [])
        [\<lparr>rows = RowsArray [[(''id'', JStr ''__proto__''), (''__proto__'', JNum 1)]]\<rparr>,
         \<lparr>rows = RowsArray [[(''id'', JStr ''__proto__''), (''__proto__'', JNum 1)]]\<rparr>]
     \<noteq> mergedRows False ''id'' (Some [])
        [\<lparr>rows = RowsArray [[(''id'', JStr ''__proto__''), (''__proto__'', JNum 1)]]\<rparr>]
   \<and> mergeStreaming ''id'' (Some [])
        [\<lparr>rows = RowsArray [[(''id'', JStr ''__proto__''), (''__proto__'', JNum 1)]]\<rparr>,
         \<lparr>rows = RowsArray [[(''id'', JStr ''__proto__''), (''__proto__'', JNum 1)]]\<rparr>]
     \<noteq> mergeStreaming ''id'' (Some [])
        [\<lparr>rows = RowsArray [[(''id'', JStr ''__proto__''), (''__proto__'', JNum 1)]]\<rparr>]"
  by (simp add: mergedRows_def eval_merge eval_obj eval_str eval_index)




text \<open>
  Claim C5 (write suppression). One run of the persistence effect leaves the backend as it
  is when the serialized form of the map rebuilt from the merged rows equals the serialized
  form of the stored value. Running it again with merged rows of the same serialized form
  changes nothing further, so the effect is idempotent, and the two runs together perform
  the writes of the first one: one write in streaming mode when the stored value serializes
  differently, none otherwise.
\<close>

theorem C5_write_suppression:
  "(serialized (orEmpty (rowsValue s)) = serialized (rekey ix merged) \<longrightarrow> save isHttp ix merged s = s)
   \<and> save isHttp ix merged (save isHttp ix merged s) = save isHttp ix merged s
   \<and> (serialized (rekey ix merged') = serialized (rekey ix merged) \<longrightarrow>
        save isHttp ix merged' (save isHttp ix merged s) = save isHttp ix merged s
        \<and> rowsWrites (save isHttp ix merged' (save isHttp ix merged s)) =
            (if \<not> isHttp \<and> serialized (orEmpty (rowsValue s)) \<noteq> serialized (rekey ix merged)
             then rowsWrites s + 1 else rowsWrites s))"
proof -
  have a: "serialized (orEmpty (rowsValue s)) = serialized (rekey ix merged) \<longrightarrow> save isHttp ix merged s = s"
    by (simp add: save_suppressed)
  have b: "save isHttp ix merged (save isHttp ix merged s) = save isHttp ix merged s"
    by (simp add: save_twice)
  have c: "serialized (rekey ix merged') = serialized (rekey ix merged) \<longrightarrow>
        save isHttp ix merged' (save isHttp ix merged s) = save isHttp ix merged s
        \<and> rowsWrites (save isHttp ix merged' (save isHttp ix merged s)) =
            (if \<not> isHttp \<and> serialized (orEmpty (rowsValue s)) \<noteq> serialized (rekey ix merged)
             then rowsWrites s + 1 else rowsWrites s)"
    by (simp add: save_twice save_writes)
  from a b c show ?thesis by blast
qed

theorem C5_write_suppression_witness:
  "rowsWrites (save False ''id'' [[(''id'', JNum 1), (''a'', JStr ''x'')]]
      (save False ''id'' [[(''id'', JNum 1), (''a'', JStr ''x'')]] \<lparr>rowsValue = Some [], rowsWrites = 0\<rparr>)) = 1
   \<and> save False ''id'' [[(''id'', JNum 1), (''a'', JStr ''x'')]]
        \<lparr>rowsValue = Some [(''1'', [(''id'', JNum 1), (''a'', JStr ''x'')])], rowsWrites = 4\<rparr>
      = \<lparr>rowsValue = Some [(''1'', [(''id'', JNum 1), (''a'', JStr ''x'')])], rowsWrites = 4\<rparr>"
proof -
  have ne: "serialized (orEmpty (rowsValue \<lparr>rowsValue = Some [], rowsWrites = 0\<rparr>))
      \<noteq> serialized (rekey ''id'' [[(''id'', JNum 1), (''a'', JStr ''x'')]])"
    by (simp add: serialized_def collectionJv_def rekey_eval orEmpty_simps quote_def)
  have eq: "serialized (orEmpty (rowsValue \<lparr>rowsValue = Some [(''1'', [(''id'', JNum 1), (''a'', JStr ''x'')])], rowsWrites = 4\<rparr>))
      = serialized (rekey ''id'' [[(''id'', JNum 1), (''a'', JStr ''x'')]])"
    by (simp add: rekey_eval orEmpty_simps)
  from C5_write_suppression [where s = "\<lparr>rowsValue = Some [], rowsWrites = 0\<rparr>" and ix = "''id''"
      and merged = "[[(''id'', JNum 1), (''a'', JStr ''x'')]]" and merged' = "[[(''id'', JNum 1), (''a'', JStr ''x'')]]"
      and isHttp = False]
  have "rowsWrites (save False ''id'' [[(''id'', JNum 1), (''a'', JStr ''x'')]]
      (save False ''id'' [[(''id'', JNum 1), (''a'', JStr ''x'')]] \<lparr>rowsValue = Some [], rowsWrites = 0\<rparr>))
    = (if \<not> False \<and> serialized (orEmpty (rowsValue \<lparr>rowsValue = Some [], rowsWrites = 0\<rparr>))
            \<noteq> serialized (rekey ''id'' [[(''id'', JNum 1), (''a'', JStr ''x'')]])
       then rowsWrites \<lparr>rowsValue = Some [], rowsWrites = 0\<rparr> + 1
       else rowsWrites \<lparr>rowsValue = Some [], rowsWrites = 0\<rparr>)"
    by blast
  with ne have w: "rowsWrites (save False ''id'' [[(''id'', JNum 1), (''a'', JStr ''x'')]]
      (save False ''id'' [[(''id'', JNum 1), (''a'', JStr ''x'')]] \<lparr>rowsValue = Some [], rowsWrites = 0\<rparr>)) = 1"
    by simp
  from C5_write_suppression [where s = "\<lparr>rowsValue = Some [(''1'', [(''id'', JNum 1), (''a'', JStr ''x'')])], rowsWrites = 4\<rparr>"
      and ix = "''id''" and merged = "[[(''id'', JNum 1), (''a'', JStr ''x'')]]" and isHttp = False] eq
  have n: "save False ''id'' [[(''id'', JNum 1), (''a'', JStr ''x'')]]
        \<lparr>rowsValue = Some [(''1'', [(''id'', JNum 1), (''a'', JStr ''x'')])], rowsWrites = 4\<rparr>
      = \<lparr>rowsValue = Some [(''1'', [(''id'', JNum 1), (''a'', JStr ''x'')])], rowsWrites = 4\<rparr>"
    by simp
  from w n show ?thesis by simp
qed

text \<open>
  Saving twice does not always write once: when the backend already holds the collection,
  neither call writes.
\<close>

theorem C5_two_saves_may_write_nothing:
  "rowsWrites (save False ''id'' [[(''id'', JNum 1), (''a'', JStr ''x'')]]
      (save False ''id'' [[(''id'', JNum 1), (''a'', JStr ''x'')]]
         \<lparr>rowsValue = Some [(''1'', [(''id'', JNum 1), (''a'', JStr ''x'')])], rowsWrites = 0\<rparr>)) = 0"
  by (simp add: save_streaming rekey_eval orEmpty_simps)

text \<open>
  Claim C6 (page clamping). The clamp effect corrects a page above the number of pages:
  with 25 rows and a page size of 10 a page of 10 becomes 3, and with no rows it would
  become 1. But a render with no rows returns the \<open>No table data\<close> placeholder before the
  clamp effect is registered: it schedules no write, the stored page of 10 stays 10, and the
  page read from it is 10 although there is only one page.
\<close>

theorem C6_page_not_clamped_without_rows:
  "TableCard False \<lparr>indexColumn = None, enablePagination = None, pageSize = None\<rparr> []
      \<lparr>storedRows = Some [], storedPage = Some 10, storedPageSize = Some 10\<rparr> = (NoTableData, [])
   \<and> renderCommit False \<lparr>indexColumn = None, enablePagination = None, pageSize = None\<rparr> []
      \<lparr>storedRows = Some [], storedPage = Some 10, storedPageSize = Some 10\<rparr>
     = \<lparr>storedRows = Some [], storedPage = Some 10, storedPageSize = Some 10\<rparr>
   \<and> pageOf (storedPage (renderCommit False \<lparr>indexColumn = None, enablePagination = None, pageSize = None\<rparr> []
      \<lparr>storedRows = Some [], storedPage = Some 10, storedPageSize = Some 10\<rparr>)) = 10
   \<and> totalPages 0 10 = 1
   \<and> clampEffect 0 (pageOf (Some 10)) 10 = Some 1
   \<and> clampEffect 25 (pageOf (Some 10)) 10 = Some 3"
  by (simp add: renderCommit_def TableCard_def mergedRows_def mergeStreaming_def mergeLoop_def orEmpty_def
        persistEffect_def rekey_def effectList_def commit_def collectionJv_def Let_def
        clampEffect_def pageOf_def totalPages_def ceilDiv_def)

text \<open>
  Claim C7 (paginated view). When \<open>enablePagination\<close> is \<open>false\<close> the visible rows are all
  merged rows, in their enumeration order. Otherwise (also when the setting is left out) they
  are the rows at the indices from \<open>(page - 1) * pageSize\<close> up to, and not including,
  \<open>page * pageSize\<close>, in that order: for every page of at least 1 and every positive page
  size, and so for the page and the page size the card reads from storage and settings,
  unless the settings give a negative page size.
\<close>

theorem C7_paginated_view:
  "(enablePagination settings = Some False \<longrightarrow> visibleRows settings merged page ps = merged)
   \<and> (enablePagination settings \<noteq> Some False \<and> 1 \<le> page \<and> 0 < ps \<longrightarrow>
        visibleRows settings merged page ps = pageSlice merged page ps)
   \<and> (enablePagination settings \<noteq> Some False
        \<and> (case pageSize settings of None \<Rightarrow> True | Some n \<Rightarrow> 0 \<le> n) \<longrightarrow>
        visibleRows settings merged (pageOf sp) (pageSizeOf sps settings)
          = pageSlice merged (pageOf sp) (pageSizeOf sps settings))"
proof -
  have a: "enablePagination settings = Some False \<longrightarrow> visibleRows settings merged page ps = merged"
    by (simp add: visibleRows_def Let_def)
  have b: "visibleRows settings merged p s = pageSlice merged p s"
    if "enablePagination settings \<noteq> Some False" "1 \<le> p" "0 < s" for p s
    using that by (simp add: visibleRows_paginated pageSlice_take_drop)
  have c: "enablePagination settings \<noteq> Some False
        \<and> (case pageSize settings of None \<Rightarrow> True | Some n \<Rightarrow> 0 \<le> n) \<longrightarrow>
        visibleRows settings merged (pageOf sp) (pageSizeOf sps settings)
          = pageSlice merged (pageOf sp) (pageSizeOf sps settings)"
    using b [of "pageOf sp" "pageSizeOf sps settings"] pageOf_ge1 [of sp]
      pageSizeOf_pos [where settings = settings and sps = sps]
    by blast
  from a b [of page ps] c show ?thesis by blast
qed

theorem C7_paginated_view_witness:
  "visibleRows \<lparr>indexColumn = None, enablePagination = None, pageSize = None\<rparr>
      [[(''id'', JNum 1), (''a'', JStr ''x''), (''b'', JStr ''y'')], [(''id'', JNum 2), (''a'', JStr ''z'')]]
      (pageOf (Some 2)) (pageSizeOf (Some 1) \<lparr>indexColumn = None, enablePagination = None, pageSize = None\<rparr>)
     = [[(''id'', JNum 2), (''a'', JStr ''z'')]]
   \<and> visibleRows \<lparr>indexColumn = None, enablePagination = Some False, pageSize = None\<rparr>
      [[(''id'', JNum 1)], [(''id'', JNum 2)]] 2 1
     = [[(''id'', JNum 1)], [(''id'', JNum 2)]]
   \<and> visibleRows \<lparr>indexColumn = None, enablePagination = Some True, pageSize = None\<rparr>
      [[(''id'', JNum 1)], [(''id'', JNum 2)], [(''id'', JNum 3)]] 2 2
     = [[(''id'', JNum 3)]]"
proof -
  have h: "enablePagination \<lparr>indexColumn = None, enablePagination = None, pageSize = None\<rparr> \<noteq> Some False
      \<and> (case pageSize \<lparr>indexColumn = None, enablePagination = None, pageSize = None\<rparr> of
            None \<Rightarrow> True | Some n \<Rightarrow> 0 \<le> n)"
    by simp
  have v: "pageSlice [[(''id'', JNum 1), (''a'', JStr ''x''), (''b'', JStr ''y'')], [(''id'', JNum 2), (''a'', JStr ''z'')]]
      (pageOf (Some 2)) (pageSizeOf (Some 1) \<lparr>indexColumn = None, enablePagination = None, pageSize = None\<rparr>)
     = [[(''id'', JNum 2), (''a'', JStr ''z'')]]"
    by (simp add: pageOf_def pageSizeOf_def pageSlice_take_drop)
  have d: "enablePagination \<lparr>indexColumn = None, enablePagination = Some False, pageSize = None\<rparr> = Some False"
    by simp
  from C7_paginated_view [where settings = "\<lparr>indexColumn = None, enablePagination = None, pageSize = None\<rparr>"
      and merged = "[[(''id'', JNum 1), (''a'', JStr ''x''), (''b'', JStr ''y'')], [(''id'', JNum 2), (''a'', JStr ''z'')]]"
      and sp = "Some 2" and sps = "Some 1"] h
  have p1: "visibleRows \<lparr>indexColumn = None, enablePagination = None, pageSize = None\<rparr>
      [[(''id'', JNum 1), (''a'', JStr ''x''), (''b'', JStr ''y'')], [(''id'', JNum 2), (''a'', JStr ''z'')]]
      (pageOf (Some 2)) (pageSizeOf (Some 1) \<lparr>indexColumn = None, enablePagination = None, pageSize = None\<rparr>)
     = pageSlice [[(''id'', JNum 1), (''a'', JStr ''x''), (''b'', JStr ''y'')], [(''id'', JNum 2), (''a'', JStr ''z'')]]
      (pageOf (Some 2)) (pageSizeOf (Some 1) \<lparr>indexColumn = None, enablePagination = None, pageSize = None\<rparr>)"
    by blast
  from C7_paginated_view [where settings = "\<lparr>indexColumn = None, enablePagination = Some False, pageSize = None\<rparr>"
      and merged = "[[(''id'', JNum 1)], [(''id'', JNum 2)]]" and page = 2 and ps = 1] d
  have p2: "visibleRows \<lparr>indexColumn = None, enablePagination = Some False, pageSize = None\<rparr>
      [[(''id'', JNum 1)], [(''id'', JNum 2)]] 2 1
     = [[(''id'', JNum 1)], [(''id'', JNum 2)]]"
    by blast
  have g: "enablePagination \<lparr>indexColumn = None, enablePagination = Some True, pageSize = None\<rparr> \<noteq> Some False
      \<and> (1::int) \<le> 2 \<and> (0::int) < 2"
    by simp
  from C7_paginated_view [where settings = "\<lparr>indexColumn = None, enablePagination = Some True, pageSize = None\<rparr>"
      and merged = "[[(''id'', JNum 1)], [(''id'', JNum 2)], [(''id'', JNum 3)]]" and page = 2 and ps = 2] g
  have "visibleRows \<lparr>indexColumn = None, enablePagination = Some True, pageSize = None\<rparr>
      [[(''id'', JNum 1)], [(''id'', JNum 2)], [(''id'', JNum 3)]] 2 2
     = pageSlice [[(''id'', JNum 1)], [(''id'', JNum 2)], [(''id'', JNum 3)]] 2 2"
    by blast
  then have p3: "visibleRows \<lparr>indexColumn = None, enablePagination = Some True, pageSize = None\<rparr>
      [[(''id'', JNum 1)], [(''id'', JNum 2)], [(''id'', JNum 3)]] 2 2
     = [[(''id'', JNum 3)]]"
    by (simp add: pageSlice_take_drop)
  from p1 v p2 p3 show ?thesis by simp
qed

text \<open>
  Claim C8 (sorted series view). The data of a series keeps one point per time key, the
  last one gathered for that key, and loses no key (a time that is not a recognised
  timestamp is kept under its string form). The points are then sorted with a comparison
  that is numeric when both times are numbers and lexicographic on the string forms
  otherwise. When all times are numbers the result is strictly ascending numerically; when
  none is a number it is strictly ascending lexicographically. Times \<open>[3, 1, 2]\<close> come out as
  \<open>[1, 2, 3]\<close> and \<open>["2024-01-02", "2024-01-01"]\<close> as \<open>["2024-01-01", "2024-01-02"]\<close>.
\<close>

theorem C8_sorted_series_view:
  "distinct (map timeKey (seriesData pts))
   \<and> timeKey ` set (seriesData pts) = timeKey ` set pts
   \<and> (\<forall>p \<in> set (seriesData pts). p = last (filter (\<lambda>q. timeKey q = timeKey p) pts))
   \<and> (allNumeric pts \<longrightarrow>
        sorted_wrt (<) (map (\<lambda>p. the (timeNum p)) (seriesData pts)) \<and> ascendingByTime (seriesData pts))
   \<and> (noneNumeric pts \<longrightarrow>
        sorted_wrt (<) (map timeKey (seriesData pts)) \<and> ascendingByTime (seriesData pts))
   \<and> (timeNum a = Some x \<and> timeNum b = Some y \<longrightarrow> compareTime a b = x - y)
   \<and> (timeNum a = None \<or> timeNum b = None \<longrightarrow>
        compareTime a b = (if timeKey a < timeKey b then - 1 else if timeKey b < timeKey a then 1 else 0))
   \<and> seriesData [[(''time'', JNum 3), (''value'', JNum 30)], [(''time'', JNum 1), (''value'', JNum 10)],
                   [(''time'', JNum 2), (''value'', JNum 20)]]
       = [[(''time'', JNum 1), (''value'', JNum 10)], [(''time'', JNum 2), (''value'', JNum 20)],
          [(''time'', JNum 3), (''value'', JNum 30)]]
   \<and> seriesData [[(''time'', JStr ''2024-01-02''), (''value'', JNum 2)],
                   [(''time'', JStr ''2024-01-01''), (''value'', JNum 1)]]
       = [[(''time'', JStr ''2024-01-01''), (''value'', JNum 1)],
          [(''time'', JStr ''2024-01-02''), (''value'', JNum 2)]]"
proof -
  have l: "\<forall>p \<in> set (seriesData pts). p = last (filter (\<lambda>q. timeKey q = timeKey p) pts)"
    using seriesData_last by blast
  have n: "allNumeric pts \<longrightarrow>
        sorted_wrt (<) (map (\<lambda>p. the (timeNum p)) (seriesData pts)) \<and> ascendingByTime (seriesData pts)"
    using seriesData_numeric by blast
  have s: "noneNumeric pts \<longrightarrow>
        sorted_wrt (<) (map timeKey (seriesData pts)) \<and> ascendingByTime (seriesData pts)"
    using seriesData_strings by blast
  have c1: "timeNum a = Some x \<and> timeNum b = Some y \<longrightarrow> compareTime a b = x - y"
    using compareTime_numeric by blast
  have c2: "timeNum a = None \<or> timeNum b = None \<longrightarrow>
        compareTime a b = (if timeKey a < timeKey b then - 1 else if timeKey b < timeKey a then 1 else 0)"
    using compareTime_string by blast
  from seriesData_distinct [of pts] seriesData_keys [of pts] l n s c1 c2
    seriesData_example_numbers seriesData_example_strings
  show ?thesis by (intro conjI)
qed

theorem C8_sorted_series_view_witness:
  "allNumeric [[(''time'', JNum 1), (''value'', JNum 10)], [(''time'', JNum 2), (''value'', JNum 20)],
               [(''time'', JNum 1), (''value'', JNum 11)]]
   \<and> ascendingByTime (seriesData [[(''time'', JNum 1), (''value'', JNum 10)],
        [(''time'', JNum 2), (''value'', JNum 20)], [(''time'', JNum 1), (''value'', JNum 11)]])
   \<and> noneNumeric [[(''time'', JStr ''soon''), (''value'', JNum 2)], [(''time'', JNull)],
        [(''value'', JNum 1)], [(''time'', JStr ''2024-01-01''), (''value'', JNum 1)]]
   \<and> ascendingByTime (seriesData [[(''time'', JStr ''soon''), (''value'', JNum 2)], [(''time'', JNull)],
        [(''value'', JNum 1)], [(''time'', JStr ''2024-01-01''), (''value'', JNum 1)]])
   \<and> seriesData [[(''time'', JNum 1), (''value'', JNum 10)], [(''time'', JNum 2), (''value'', JNum 20)],
               [(''time'', JNum 1), (''value'', JNum 11)]]
     = [[(''time'', JNum 1), (''value'', JNum 11)], [(''time'', JNum 2), (''value'', JNum 20)]]
   \<and> [(''time'', JNum 1), (''value'', JNum 11)]
     = last (filter (\<lambda>q. timeKey q = timeKey [(''time'', JNum 1), (''value'', JNum 11)])
          [[(''time'', JNum 1), (''value'', JNum 10)], [(''time'', JNum 2), (''value'', JNum 20)],
           [(''time'', JNum 1), (''value'', JNum 11)]])
   \<and> compareTime [(''time'', JNum 3)] [(''time'', JNum 1)] = 2
   \<and> compareTime [(''time'', JStr ''soon'')] [(''time'', JNum 1)] = 1"
proof -
  have a: "allNumeric [[(''time'', JNum 1), (''value'', JNum 10)], [(''time'', JNum 2), (''value'', JNum 20)],
               [(''time'', JNum 1), (''value'', JNum 11)]]"
    by (simp add: allNumeric_def timeNum_def eval_obj)
  have b: "noneNumeric [[(''time'', JStr ''soon''), (''value'', JNum 2)], [(''time'', JNull)],
        [(''value'', JNum 1)], [(''time'', JStr ''2024-01-01''), (''value'', JNum 1)]]"
    by (simp add: noneNumeric_def timeNum_def eval_obj)
  note t1 = C8_sorted_series_view [where pts = "[[(''time'', JNum 1), (''value'', JNum 10)],
      [(''time'', JNum 2), (''value'', JNum 20)], [(''time'', JNum 1), (''value'', JNum 11)]]"
      and a = "[(''time'', JNum 3)]" and b = "[(''time'', JNum 1)]" and x = 3 and y = 1]
  from t1 a
  have p: "ascendingByTime (seriesData [[(''time'', JNum 1), (''value'', JNum 10)],
        [(''time'', JNum 2), (''value'', JNum 20)], [(''time'', JNum 1), (''value'', JNum 11)]])"
    by blast
  have m: "[(''time'', JNum 1), (''value'', JNum 11)]
      \<in> set (seriesData [[(''time'', JNum 1), (''value'', JNum 10)], [(''time'', JNum 2), (''value'', JNum 20)],
               [(''time'', JNum 1), (''value'', JNum 11)]])"
    by (simp add: seriesData_example_last_write)
  from t1 m
  have l: "[(''time'', JNum 1), (''value'', JNum 11)]
     = last (filter (\<lambda>q. timeKey q = timeKey [(''time'', JNum 1), (''value'', JNum 11)])
          [[(''time'', JNum 1), (''value'', JNum 10)], [(''time'', JNum 2), (''value'', JNum 20)],
           [(''time'', JNum 1), (''value'', JNum 11)]])"
    by blast
  have n: "timeNum [(''time'', JNum 3)] = Some 3 \<and> timeNum [(''time'', JNum 1)] = Some 1"
    by (simp add: timeNum_def eval_obj)
  from t1 n have c1: "compareTime [(''time'', JNum 3)] [(''time'', JNum 1)] = 2"
    by simp
  note t2 = C8_sorted_series_view [where pts = "[[(''time'', JStr ''soon''), (''value'', JNum 2)], [(''time'', JNull)],
        [(''value'', JNum 1)], [(''time'', JStr ''2024-01-01''), (''value'', JNum 1)]]"
      and a = "[(''time'', JStr ''soon'')]" and b = "[(''time'', JNum 1)]"]
  from t2 b
  have q: "ascendingByTime (seriesData [[(''time'', JStr ''soon''), (''value'', JNum 2)], [(''time'', JNull)],
        [(''value'', JNum 1)], [(''time'', JStr ''2024-01-01''), (''value'', JNum 1)]])"
    by blast
  have s: "timeNum [(''time'', JStr ''soon'')] = None \<or> timeNum [(''time'', JNum 1)] = None"
    by (simp add: timeNum_def eval_obj)
  have k: "timeKey [(''time'', JStr ''soon'')] = ''soon''" "timeKey [(''time'', JNum 1)] = ''1''"
    by (simp_all add: timeKey_def timeString_def eval_obj eval_str)
  from t2 s have "compareTime [(''time'', JStr ''soon'')] [(''time'', JNum 1)]
      = (if timeKey [(''time'', JStr ''soon'')] < timeKey [(''time'', JNum 1)] then - 1
         else if timeKey [(''time'', JNum 1)] < timeKey [(''time'', JStr ''soon'')] then 1 else 0)"
    by blast
  then have c2: "compareTime [(''time'', JStr ''soon'')] [(''time'', JNum 1)] = 1"
    by (simp add: k)
  from a b p q seriesData_example_last_write l c1 c2 show ?thesis by (intro conjI)
qed

text \<open>
  On a list that mixes numbers with other times the comparison need not be an ordering:
  2 comes before 10 as a number, 10 before \<open>"15"\<close> and \<open>"15"\<close> before 2 as strings. No
  arrangement of such points is ascending. The points with times \<open>10, "15", 2\<close> stay in
  that order, each next to a point it compares correctly with, and 10 ends up before 2.
\<close>

theorem C8_mixed_keys_not_ascending:
  "\<not> ascendingByTime (seriesData [[(''time'', JNum 10)], [(''time'', JStr ''15'')], [(''time'', JNum 2)]])
   \<and> compareTime [(''time'', JNum 2)] [(''time'', JNum 10)] < 0
   \<and> compareTime [(''time'', JNum 10)] [(''time'', JStr ''15'')] < 0
   \<and> compareTime [(''time'', JStr ''15'')] [(''time'', JNum 2)] < 0"
proof -
  have "\<not> ascendingByTime (seriesData [[(''time'', JNum 10)], [(''time'', JStr ''15'')], [(''time'', JNum 2)]])"
    unfolding seriesData_example_mixed
    by (simp add: ascendingByTime_def compareTime_def timeString_def eval_obj eval_str)
  moreover have "compareTime [(''time'', JNum 2)] [(''time'', JNum 10)] < 0"
    by (simp add: compareTime_def eval_obj)
  moreover have "compareTime [(''time'', JNum 10)] [(''time'', JStr ''15'')] < 0"
    by (simp add: compareTime_def timeString_def eval_obj eval_str)
  moreover have "compareTime [(''time'', JStr ''15'')] [(''time'', JNum 2)] < 0"
    by (simp add: compareTime_def timeString_def eval_obj eval_str)
  ultimately show ?thesis by (intro conjI)
qed

text \<open>
  Claim C9 (final deduplication). The rows handed to the table body are the visible rows
  after a last pass in which the first row seen for a key wins: the result has each key
  once, keeps every key of the visible rows, is a subsequence of the visible rows (their
  relative order is preserved), and each of its rows is the first visible row with that
  key. Every render that shows a table applies this pass.
\<close>

theorem C9_final_deduplication:
  "distinct (map (rowKey ix) (dedupedVisibleRows ix visible))
   \<and> subseq (dedupedVisibleRows ix visible) visible
   \<and> rowKey ix ` set (dedupedVisibleRows ix visible) = rowKey ix ` set visible
   \<and> (\<forall>r \<in> set (dedupedVisibleRows ix visible).
         find (\<lambda>x. rowKey ix x = rowKey ix r) visible = Some r)
   \<and> fst (TableCard isHttp settings records st) =
       (let ixc = indexColumnOf settings;
            merged = mergedRows isHttp ixc (storedRows st) records
        in if merged = [] then NoTableData
           else TableBody (dedupedVisibleRows ixc
                  (visibleRows settings merged (pageOf (storedPage st))
                     (pageSizeOf (storedPageSize st) settings))))"
proof -
  have a: "distinct (map (rowKey ix) (dedupedVisibleRows ix visible))"
    by (simp add: dedupedVisibleRows_def dedupeLoop_distinct)
  have b: "subseq (dedupedVisibleRows ix visible) visible"
    by (simp add: dedupedVisibleRows_def dedupeLoop_subseq)
  have c: "rowKey ix ` set (dedupedVisibleRows ix visible) = rowKey ix ` set visible"
    by (simp add: dedupedVisibleRows_def dedupeLoop_keys)
  have d: "\<forall>r \<in> set (dedupedVisibleRows ix visible).
         find (\<lambda>x. rowKey ix x = rowKey ix r) visible = Some r"
    by (simp add: dedupedVisibleRows_def dedupeLoop_first)
  have e: "fst (TableCard isHttp settings records st) =
       (let ixc = indexColumnOf settings;
            merged = mergedRows isHttp ixc (storedRows st) records
        in if merged = [] then NoTableData
           else TableBody (dedupedVisibleRows ixc
                  (visibleRows settings merged (pageOf (storedPage st))
                     (pageSizeOf (storedPageSize st) settings))))"
    by (simp add: TableCard_def Let_def)
  from a b c d e show ?thesis by blast
qed

theorem C9_final_deduplication_witness:
  "dedupedVisibleRows ''id''
      [[(''id'', JNum 1), (''a'', JStr ''x'')], [(''id'', JNum 2)], [(''id'', JNum 1), (''a'', JStr ''y'')]]
     = [[(''id'', JNum 1), (''a'', JStr ''x'')], [(''id'', JNum 2)]]
   \<and> find (\<lambda>x. rowKey ''id'' x = rowKey ''id'' [(''id'', JNum 1), (''a'', JStr ''x'')])
        [[(''id'', JNum 1), (''a'', JStr ''x'')], [(''id'', JNum 2)], [(''id'', JNum 1), (''a'', JStr ''y'')]]
     = Some [(''id'', JNum 1), (''a'', JStr ''x'')]"
proof -
  have ev: "dedupedVisibleRows ''id''
      [[(''id'', JNum 1), (''a'', JStr ''x'')], [(''id'', JNum 2)], [(''id'', JNum 1), (''a'', JStr ''y'')]]
     = [[(''id'', JNum 1), (''a'', JStr ''x'')], [(''id'', JNum 2)]]"
    by (simp add: dedupedVisibleRows_def dedupeLoop_step eval_merge eval_obj eval_str)
  from C9_final_deduplication [where ix = "''id''"
      and visible = "[[(''id'', JNum 1), (''a'', JStr ''x'')], [(''id'', JNum 2)], [(''id'', JNum 1), (''a'', JStr ''y'')]]"]
  have "\<forall>r \<in> set (dedupedVisibleRows ''id''
      [[(''id'', JNum 1), (''a'', JStr ''x'')], [(''id'', JNum 2)], [(''id'', JNum 1), (''a'', JStr ''y'')]]).
         find (\<lambda>x. rowKey ''id'' x = rowKey ''id'' r)
           [[(''id'', JNum 1), (''a'', JStr ''x'')], [(''id'', JNum 2)], [(''id'', JNum 1), (''a'', JStr ''y'')]] = Some r"
    by blast
  with ev show ?thesis by simp
qed

text \<open>
  Claim C10 (malformed batches). A record whose \<open>rows\<close> field is missing, \<open>null\<close> or not
  an array contributes no row, in HTTP mode and in streaming mode alike: \<open>mergedRows\<close> is
  a total function, and its result is the one obtained from the well-formed records alone.
\<close>

theorem C10_malformed_rows_ignored:
  "(\<not> wellFormedRows rec \<longrightarrow> rowsOf (rows rec) = [])
   \<and> mergedRows isHttp ix stored (filter wellFormedRows records) = mergedRows isHttp ix stored records
   \<and> (\<not> wellFormedRows rec \<longrightarrow>
        mergedRows isHttp ix stored (pre @ rec # post) = mergedRows isHttp ix stored (pre @ post))"
proof -
  have a: "\<not> wellFormedRows rec \<longrightarrow> rowsOf (rows rec) = []"
    by (simp add: rowsOf_malformed)
  have b: "mergedRows isHttp ix stored (filter wellFormedRows records) = mergedRows isHttp ix stored records"
    by (simp add: mergedRows_def mergeHttp_allRows mergeStreaming_allRows allRows_filter)
  have c: "\<not> wellFormedRows rec \<longrightarrow>
        mergedRows isHttp ix stored (pre @ rec # post) = mergedRows isHttp ix stored (pre @ post)"
    by (simp add: mergedRows_def mergeHttp_allRows mergeStreaming_allRows allRows_def rowsOf_malformed)
  from a b c show ?thesis by blast
qed

theorem C10_malformed_rows_ignored_witness:
  "\<not> wellFormedRows \<lparr>rows = RowsNull\<rparr>
   \<and> mergedRows False ''id'' None
        [\<lparr>rows = RowsArray [[(''id'', JNum 1)]]\<rparr>, \<lparr>rows = RowsNull\<rparr>, \<lparr>rows = RowsArray [[(''id'', JNum 2)]]\<rparr>]
     = mergedRows False ''id'' None
        [\<lparr>rows = RowsArray [[(''id'', JNum 1)]]\<rparr>, \<lparr>rows = RowsArray [[(''id'', JNum 2)]]\<rparr>]"
proof -
  have h: "\<not> wellFormedRows \<lparr>rows = RowsNull\<rparr>" by (simp add: wellFormedRows_def)
  from C10_malformed_rows_ignored [of "\<lparr>rows = RowsNull\<rparr>" False "''id''" None "[]"
      "[\<lparr>rows = RowsArray [[(''id'', JNum 1)]]\<rparr>]" "[\<lparr>rows = RowsArray [[(''id'', JNum 2)]]\<rparr>]"] h
  show ?thesis by simp
qed


end
